theory Spec2Isabelle
  imports Complex_Main
begin

unbundle bit_operations_syntax

section \<open>JavaScript numbers used as array indices and shift counts\<close>

text \<open>
  Qubit indices, loop counters and array indices of \<^verbatim>\<open>gates.js\<close> are integer-valued
  JavaScript numbers, modelled as \<^typ>\<open>int\<close> and \<^typ>\<open>nat\<close>. The bitwise operators first convert
  their operands to signed 32-bit integers and take the shift count modulo 32; the wrap-around
  is written out here. Amplitudes and angles are exact reals, not doubles: rounding, NaN and
  the infinities are outside the model. The messages written with \<^verbatim>\<open>console.error\<close> and
  \<^verbatim>\<open>console.warn\<close> are not part of it either.
\<close>

definition toInt32 :: "int \<Rightarrow> int" where
  "toInt32 x = signed_take_bit 31 x"

text \<open>\<^verbatim>\<open>x << k\<close>\<close>
definition js_shl :: "int \<Rightarrow> int \<Rightarrow> int" where
  "js_shl x k = toInt32 (push_bit (nat (k mod 32)) (toInt32 x))"

text \<open>\<^verbatim>\<open>x >> k\<close>\<close>
definition js_sar :: "int \<Rightarrow> int \<Rightarrow> int" where
  "js_sar x k = drop_bit (nat (k mod 32)) (toInt32 x)"

text \<open>\<^verbatim>\<open>x & y\<close>\<close>
definition js_and :: "int \<Rightarrow> int \<Rightarrow> int" where
  "js_and x y = toInt32 x AND toInt32 y"

text \<open>\<^verbatim>\<open>x | y\<close>\<close>
definition js_or :: "int \<Rightarrow> int \<Rightarrow> int" where
  "js_or x y = toInt32 x OR toInt32 y"

text \<open>\<^verbatim>\<open>~x\<close>\<close>
definition js_not :: "int \<Rightarrow> int" where
  "js_not x = NOT (toInt32 x)"

text \<open>
  \<^verbatim>\<open>xs[k]\<close> on a dense array: the element, or \<^verbatim>\<open>undefined\<close> (here \<open>None\<close>) when \<open>k\<close> is
  negative or not below the length.
\<close>
definition js_get :: "'a list \<Rightarrow> int \<Rightarrow> 'a option" where
  "js_get xs k = (if 0 \<le> k \<and> k < int (length xs) then Some (xs ! nat k) else None)"

section \<open>Complex number utilities\<close>

record amp =
  re :: real
  im :: real

text \<open>A matrix element or an argument of the utilities is a bare number or a \<^verbatim>\<open>{re, im}\<close> object.\<close>
datatype entry = Num real | Obj amp

definition Complex_create :: "real \<Rightarrow> real \<Rightarrow> amp" where
  "Complex_create r i = \<lparr>re = r, im = i\<rparr>"

fun Complex_fromNumber :: "entry \<Rightarrow> amp" where
  "Complex_fromNumber (Num n) = \<lparr>re = n, im = 0\<rparr>"
| "Complex_fromNumber (Obj c) = c"

definition Complex_add :: "entry \<Rightarrow> entry \<Rightarrow> amp" where
  "Complex_add a0 b0 =
    (let a = Complex_fromNumber a0; b = Complex_fromNumber b0
     in \<lparr>re = re a + re b, im = im a + im b\<rparr>)"

definition Complex_multiply :: "entry \<Rightarrow> entry \<Rightarrow> amp" where
  "Complex_multiply a0 b0 =
    (let a = Complex_fromNumber a0; b = Complex_fromNumber b0
     in \<lparr>re = re a * re b - im a * im b, im = re a * im b + im a * re b\<rparr>)"

definition Complex_magnitude :: "entry \<Rightarrow> real" where
  "Complex_magnitude c0 = (let c = Complex_fromNumber c0 in sqrt (re c * re c + im c * im c))"


section \<open>Gate definitions\<close>

datatype gate_type = Single | Rotation | Controlled | Swap | Measure

text \<open>
  The fields of a \<^verbatim>\<open>GATES\<close> entry that the simulator reads: \<^verbatim>\<open>type\<close>, \<^verbatim>\<open>matrix\<close> and
  \<^verbatim>\<open>getMatrix\<close> (the last two are absent on some entries).
\<close>
record gate_def =
  gtype :: gate_type
  matrix :: "entry list list option"
  getMatrix :: "(real \<Rightarrow> entry list list) option"

text \<open>
  The lookup \<^verbatim>\<open>GATES[name]\<close>; \<open>None\<close> is \<^verbatim>\<open>undefined\<close>. (A name that \<^verbatim>\<open>Object.prototype\<close>
  defines, such as \<^verbatim>\<open>constructor\<close>, gives an object without \<^verbatim>\<open>matrix\<close>, for which
  \<^verbatim>\<open>applySingleQubitGate\<close> returns at once as it does for \<^verbatim>\<open>undefined\<close>.)
\<close>
definition GATES :: "string \<Rightarrow> gate_def option" where
  "GATES name =
    (if name = ''H'' then Some \<lparr>gtype = Single,
        matrix = Some [[Num (1 / sqrt 2), Num (1 / sqrt 2)],
                       [Num (1 / sqrt 2), Num (- 1 / sqrt 2)]],
        getMatrix = None\<rparr>
     else if name = ''X'' then Some \<lparr>gtype = Single,
        matrix = Some [[Num 0, Num 1],
                       [Num 1, Num 0]],
        getMatrix = None\<rparr>
     else if name = ''Y'' then Some \<lparr>gtype = Single,
        matrix = Some [[Num 0, Obj \<lparr>re = 0, im = - 1\<rparr>],
                       [Obj \<lparr>re = 0, im = 1\<rparr>, Num 0]],
        getMatrix = None\<rparr>
     else if name = ''Z'' then Some \<lparr>gtype = Single,
        matrix = Some [[Num 1, Num 0],
                       [Num 0, Num (- 1)]],
        getMatrix = None\<rparr>
     else if name = ''S'' then Some \<lparr>gtype = Single,
        matrix = Some [[Num 1, Num 0],
                       [Num 0, Obj \<lparr>re = 0, im = 1\<rparr>]],
        getMatrix = None\<rparr>
     else if name = ''T'' then Some \<lparr>gtype = Single,
        matrix = Some [[Num 1, Num 0],
                       [Num 0, Obj \<lparr>re = cos (pi / 4), im = sin (pi / 4)\<rparr>]],
        getMatrix = None\<rparr>
     else if name = ''RX'' then Some \<lparr>gtype = Rotation,
        matrix = None,
        getMatrix = Some (\<lambda>theta.
          [[Num (cos (theta / 2)), Obj \<lparr>re = 0, im = - sin (theta / 2)\<rparr>],
           [Obj \<lparr>re = 0, im = - sin (theta / 2)\<rparr>, Num (cos (theta / 2))]])\<rparr>
     else if name = ''RY'' then Some \<lparr>gtype = Rotation,
        matrix = None,
        getMatrix = Some (\<lambda>theta.
          [[Num (cos (theta / 2)), Num (- sin (theta / 2))],
           [Num (sin (theta / 2)), Num (cos (theta / 2))]])\<rparr>
     else if name = ''RZ'' then Some \<lparr>gtype = Rotation,
        matrix = None,
        getMatrix = Some (\<lambda>theta.
          [[Obj \<lparr>re = cos (theta / 2), im = - sin (theta / 2)\<rparr>, Num 0],
           [Num 0, Obj \<lparr>re = cos (theta / 2), im = sin (theta / 2)\<rparr>]])\<rparr>
     else if name = ''CNOT'' then Some \<lparr>gtype = Controlled,
        matrix = Some [[Num 1, Num 0, Num 0, Num 0],
                       [Num 0, Num 1, Num 0, Num 0],
                       [Num 0, Num 0, Num 0, Num 1],
                       [Num 0, Num 0, Num 1, Num 0]],
        getMatrix = None\<rparr>
     else if name = ''CZ'' then Some \<lparr>gtype = Controlled,
        matrix = Some [[Num 1, Num 0, Num 0, Num 0],
                       [Num 0, Num 1, Num 0, Num 0],
                       [Num 0, Num 0, Num 1, Num 0],
                       [Num 0, Num 0, Num 0, Num (- 1)]],
        getMatrix = None\<rparr>
     else if name = ''SWAP'' then Some \<lparr>gtype = Swap,
        matrix = Some [[Num 1, Num 0, Num 0, Num 0],
                       [Num 0, Num 0, Num 1, Num 0],
                       [Num 0, Num 1, Num 0, Num 0],
                       [Num 0, Num 0, Num 0, Num 1]],
        getMatrix = None\<rparr>
     else if name = ''M'' then Some \<lparr>gtype = Measure, matrix = None, getMatrix = None\<rparr>
     else None)"

section \<open>The simulator object\<close>

record sim =
  numQubits :: nat
  stateVector :: "amp list"

datatype error = TypeError | RangeError

text \<open>
  How a method call that may assign \<^verbatim>\<open>this.stateVector\<close> ends:
  \<^item> \<open>Returns s\<close>: it returns, the object now being \<open>s\<close>;
  \<^item> \<open>Throws e s\<close>: it throws \<open>e\<close>, the object being \<open>s\<close> at that moment;
  \<^item> \<open>Corrupts\<close>: it returns, and \<^verbatim>\<open>this.stateVector\<close> is no longer a dense array of
    \<^verbatim>\<open>{re, im}\<close> objects (an \<^verbatim>\<open>undefined\<close> or empty object was stored, or a write beyond
    the length extended the array). Such states are not followed further.
\<close>
datatype outcome = Returns sim | Throws error sim | Corrupts

text \<open>\<^verbatim>\<open>new Array(size)\<close> throws a RangeError for a length above \<open>2^32 - 1\<close>.\<close>
definition max_array_length :: nat where
  "max_array_length = 4294967295"

definition reset :: "sim \<Rightarrow> outcome" where
  "reset s =
    (let size = 2 ^ numQubits s
     in if size > max_array_length then Throws RangeError s
        else Returns (s\<lparr>stateVector := (replicate size (Complex_create 0 0))[0 := Complex_create 1 0]\<rparr>))"

text \<open>The constructor: it sets the fields and calls \<open>reset\<close>.\<close>
definition QuantumSimulator :: "nat \<Rightarrow> outcome" where
  "QuantumSimulator n = reset \<lparr>numQubits = n, stateVector = []\<rparr>"

definition getProbabilities :: "sim \<Rightarrow> real list" where
  "getProbabilities s =
    map (\<lambda>c. let mag = Complex_magnitude (Obj c) in mag * mag) (stateVector s)"

section \<open>Single-qubit gates\<close>

text \<open>The \<^verbatim>\<open>params\<close> object of a rotation gate; \<^verbatim>\<open>theta\<close> may be absent.\<close>
record params =
  theta :: "real option"

text \<open>
  \<^verbatim>\<open>params.theta || 0\<close>, where an omitted \<^verbatim>\<open>params\<close> argument (\<open>None\<close>) defaults to
  \<^verbatim>\<open>{}\<close>: an absent \<^verbatim>\<open>theta\<close> and a \<^verbatim>\<open>theta\<close> of 0 both give 0.
\<close>
definition theta_or_zero :: "params option \<Rightarrow> real" where
  "theta_or_zero p =
    (case (case p of None \<Rightarrow> None | Some ps \<Rightarrow> theta ps) of
       None \<Rightarrow> 0
     | Some t \<Rightarrow> if t = 0 then 0 else t)"

text \<open>
  A loop over the indices \<open>is\<close> whose body may throw; the exception ends the loop.
\<close>
fun for_each :: "nat list \<Rightarrow> (nat \<Rightarrow> 'a \<Rightarrow> error + 'a) \<Rightarrow> 'a \<Rightarrow> error + 'a" where
  "for_each [] body acc = Inr acc"
| "for_each (i # is) body acc =
    (case body i acc of Inl e \<Rightarrow> Inl e | Inr acc' \<Rightarrow> for_each is body acc')"

text \<open>
  The body of the inner loop of \<^verbatim>\<open>applySingleQubitGate\<close>, for index \<open>i\<close> and \<open>newBit\<close>.
  \<^verbatim>\<open>Complex.multiply\<close> and \<^verbatim>\<open>Complex.add\<close> throw a TypeError when they read \<^verbatim>\<open>.re\<close> of
  \<^verbatim>\<open>undefined\<close>, which is what an array access out of range gives them.
\<close>
definition sq_body :: "entry list list \<Rightarrow> amp list \<Rightarrow> int \<Rightarrow> int \<Rightarrow> nat \<Rightarrow> nat \<Rightarrow> amp list
    \<Rightarrow> error + amp list" where
  "sq_body mat sv n qubitIndex i newBit newState =
    (let b = js_and (js_sar (int i) (n - 1 - qubitIndex)) 1;
         newIndex = js_or (js_and (int i) (js_not (js_shl 1 (n - 1 - qubitIndex))))
                          (js_shl (int newBit) (n - 1 - qubitIndex))
     in case js_get mat (int newBit) of None \<Rightarrow> Inl TypeError
        | Some row \<Rightarrow>
     (case js_get row b of None \<Rightarrow> Inl TypeError
        | Some e \<Rightarrow>
     (let matrixElement = Complex_fromNumber e
      in case js_get sv (int i) of None \<Rightarrow> Inl TypeError
        | Some a \<Rightarrow>
     (let contribution = Complex_multiply (Obj matrixElement) (Obj a)
      in case js_get newState newIndex of None \<Rightarrow> Inl TypeError
        | Some old \<Rightarrow>
          Inr (newState[nat newIndex := Complex_add (Obj old) (Obj contribution)])))))"

definition applySingleQubitGate :: "string \<Rightarrow> int \<Rightarrow> params option \<Rightarrow> sim \<Rightarrow> outcome" where
  "applySingleQubitGate gateName qubitIndex ps s =
    (case GATES gateName of
       None \<Rightarrow> Returns s
     | Some gate \<Rightarrow>
        (case (if gtype gate = Rotation
               then (case getMatrix gate of
                       None \<Rightarrow> Inl TypeError
                     | Some f \<Rightarrow> Inr (Some (f (theta_or_zero ps))))
               else Inr (matrix gate)) of
           Inl e \<Rightarrow> Throws e s
         | Inr None \<Rightarrow> Returns s
         | Inr (Some mat) \<Rightarrow>
            (let n = int (numQubits s);
                 size = 2 ^ numQubits s
             in if size > max_array_length then Throws RangeError s
                else
                  (case for_each [0..<size]
                          (\<lambda>i. for_each [0..<2] (sq_body mat (stateVector s) n qubitIndex i))
                          (replicate size (Complex_create 0 0)) of
                     Inl e \<Rightarrow> Throws e s
                   | Inr newState \<Rightarrow> Returns (s\<lparr>stateVector := newState\<rparr>)))))"

section \<open>Multi-qubit gates\<close>

text \<open>
  The loop of \<^verbatim>\<open>applyCNOT\<close> over the copy \<open>newState\<close>; \<open>None\<close> once the copy is no longer a
  dense array of amplitudes (an exchange with an \<^verbatim>\<open>undefined\<close> element). Nothing here throws.
\<close>
definition cnot_body :: "int \<Rightarrow> int \<Rightarrow> int \<Rightarrow> nat \<Rightarrow> amp list option \<Rightarrow> amp list option" where
  "cnot_body n controlQubit targetQubit i st =
    (case st of None \<Rightarrow> None
     | Some newState \<Rightarrow>
        (let controlBit = js_and (js_sar (int i) (n - 1 - controlQubit)) 1
         in if controlBit = 1 then
              (let targetBit = js_and (js_sar (int i) (n - 1 - targetQubit)) 1;
                   newTargetBit = 1 - targetBit;
                   newIndex = js_or (js_and (int i) (js_not (js_shl 1 (n - 1 - targetQubit))))
                                    (js_shl newTargetBit (n - 1 - targetQubit))
               in case (js_get newState (int i), js_get newState newIndex) of
                    (Some temp, Some other) \<Rightarrow> Some (newState[i := other, nat newIndex := temp])
                  | _ \<Rightarrow> None)
            else Some newState))"

definition applyCNOT :: "int \<Rightarrow> int \<Rightarrow> sim \<Rightarrow> outcome" where
  "applyCNOT controlQubit targetQubit s =
    (let n = int (numQubits s);
         size = 2 ^ numQubits s
     in case fold (cnot_body n controlQubit targetQubit) [0..<size] (Some (stateVector s)) of
          None \<Rightarrow> Corrupts
        | Some newState \<Rightarrow> Returns (s\<lparr>stateVector := newState\<rparr>))"

text \<open>
  The loop of \<^verbatim>\<open>applyCZ\<close>, which updates \<^verbatim>\<open>this.stateVector\<close> in place: the result is the
  exception thrown, if any, and the array as it stands then.
\<close>
fun cz_loop :: "int \<Rightarrow> int \<Rightarrow> int \<Rightarrow> nat list \<Rightarrow> amp list \<Rightarrow> error option \<times> amp list" where
  "cz_loop n controlQubit targetQubit [] sv = (None, sv)"
| "cz_loop n controlQubit targetQubit (i # is) sv =
    (let controlBit = js_and (js_sar (int i) (n - 1 - controlQubit)) 1;
         targetBit = js_and (js_sar (int i) (n - 1 - targetQubit)) 1
     in if controlBit = 1 \<and> targetBit = 1 then
          (case js_get sv (int i) of
             None \<Rightarrow> (Some TypeError, sv)
           | Some a \<Rightarrow>
               cz_loop n controlQubit targetQubit is
                 (sv[i := Complex_multiply (Obj a) (Obj (Complex_create (- 1) 0))]))
        else cz_loop n controlQubit targetQubit is sv)"

definition applyCZ :: "int \<Rightarrow> int \<Rightarrow> sim \<Rightarrow> outcome" where
  "applyCZ controlQubit targetQubit s =
    (let n = int (numQubits s);
         size = 2 ^ numQubits s
     in case cz_loop n controlQubit targetQubit [0..<size] (stateVector s) of
          (None, sv) \<Rightarrow> Returns (s\<lparr>stateVector := sv\<rparr>)
        | (Some e, sv) \<Rightarrow> Throws e (s\<lparr>stateVector := sv\<rparr>))"

text \<open>
  The loop of \<^verbatim>\<open>applySWAP\<close> over the fresh array \<open>newState\<close>; \<open>None\<close> once that array is no
  longer a dense array of amplitudes. A write at a negative index sets a property that is not
  an element, so the elements are as before; a write at or beyond the length extends the
  array; and the spread \<^verbatim>\<open>{ ...undefined }\<close> of a missing amplitude stores an empty object.
\<close>
definition swap_body :: "amp list \<Rightarrow> int \<Rightarrow> int \<Rightarrow> int \<Rightarrow> nat \<Rightarrow> amp list option \<Rightarrow> amp list option" where
  "swap_body sv n qubit1 qubit2 i st =
    (case st of None \<Rightarrow> None
     | Some newState \<Rightarrow>
        (let bit1 = js_and (js_sar (int i) (n - 1 - qubit1)) 1;
             bit2 = js_and (js_sar (int i) (n - 1 - qubit2)) 1;
             newIndex = int i;
             newIndex = js_or (js_and newIndex (js_not (js_shl 1 (n - 1 - qubit1))))
                              (js_shl bit2 (n - 1 - qubit1));
             newIndex = js_or (js_and newIndex (js_not (js_shl 1 (n - 1 - qubit2))))
                              (js_shl bit1 (n - 1 - qubit2))
         in if newIndex < 0 then Some newState
            else if newIndex < int (length newState) then
              (case js_get sv (int i) of
                 None \<Rightarrow> None
               | Some a \<Rightarrow> Some (newState[nat newIndex := a]))
            else None))"

definition applySWAP :: "int \<Rightarrow> int \<Rightarrow> sim \<Rightarrow> outcome" where
  "applySWAP qubit1 qubit2 s =
    (let n = int (numQubits s);
         size = 2 ^ numQubits s
     in if size > max_array_length then Throws RangeError s
        else
          (case fold (swap_body (stateVector s) n qubit1 qubit2) [0..<size]
                  (Some (replicate size (Complex_create 0 0))) of
             None \<Rightarrow> Corrupts
           | Some newState \<Rightarrow> Returns (s\<lparr>stateVector := newState\<rparr>)))"

section \<open>Dispatch of a gate operation\<close>

text \<open>
  The fields of a gate operation that \<^verbatim>\<open>applyGate\<close> reads. \<open>targetQubit\<close> is read for CNOT, CZ
  and SWAP only, where the circuit model supplies it; \<open>params\<close> may be absent.
\<close>
record gateOp =
  gate :: string
  qubit :: int
  targetQubit :: int
  params :: "params option"

definition applyGate :: "gateOp \<Rightarrow> sim \<Rightarrow> outcome" where
  "applyGate gateOp s =
    (if gate gateOp \<in> {''H'', ''X'', ''Y'', ''Z'', ''S'', ''T''} then
       applySingleQubitGate (gate gateOp) (qubit gateOp) None s
     else if gate gateOp \<in> {''RX'', ''RY'', ''RZ''} then
       applySingleQubitGate (gate gateOp) (qubit gateOp) (params gateOp) s
     else if gate gateOp = ''CNOT'' then applyCNOT (qubit gateOp) (targetQubit gateOp) s
     else if gate gateOp = ''CZ'' then applyCZ (qubit gateOp) (targetQubit gateOp) s
     else if gate gateOp = ''SWAP'' then applySWAP (qubit gateOp) (targetQubit gateOp) s
     else if gate gateOp = ''M'' then Returns s
     else Returns s)"

section \<open>Reduced state of one qubit\<close>





section \<open>Measurement sampling\<close>

text \<open>\<^verbatim>\<open>i.toString(2)\<close> for a non-negative integer \<open>i\<close>.\<close>
fun toString2 :: "nat \<Rightarrow> string" where
  "toString2 i =
    (if i < 2 then [if i = 0 then CHR ''0'' else CHR ''1'']
     else toString2 (i div 2) @ [if i mod 2 = 0 then CHR ''0'' else CHR ''1''])"

declare toString2.simps [simp del]

text \<open>\<^verbatim>\<open>str.padStart(width, c)\<close> for a one-character \<open>c\<close>.\<close>
definition padStart :: "nat \<Rightarrow> char \<Rightarrow> string \<Rightarrow> string" where
  "padStart width c str = replicate (width - length str) c @ str"

text \<open>
  The loop of \<^verbatim>\<open>measure\<close> from index \<open>i\<close> on, over the probabilities not yet visited:
  the index at which it returns, or \<open>None\<close> when it runs to the end.
\<close>
fun measure_loop :: "real \<Rightarrow> real list \<Rightarrow> nat \<Rightarrow> real \<Rightarrow> nat option" where
  "measure_loop rand [] i cumulative = None"
| "measure_loop rand (p # probs) i cumulative =
    (let cumulative = cumulative + p
     in if rand \<le> cumulative then Some i
        else measure_loop rand probs (i + 1) cumulative)"

text \<open>\<^verbatim>\<open>measure\<close>, with the value \<open>rand\<close> that \<^verbatim>\<open>Math.random()\<close> returned as a parameter.\<close>
definition measure :: "real \<Rightarrow> sim \<Rightarrow> string" where
  "measure rand s =
    (case measure_loop rand (getProbabilities s) 0 0 of
       Some i \<Rightarrow> padStart (numQubits s) CHR ''0'' (toString2 i)
     | None \<Rightarrow> replicate (numQubits s) CHR ''0'')"

section \<open>Sequences of calls\<close>

text \<open>A call of one of the four gate-application methods, and a sequence of such calls.\<close>
datatype call =
    SingleQubitGate string int "params option"
  | CNOT int int
  | CZ int int
  | SWAP int int

fun apply_call :: "call \<Rightarrow> sim \<Rightarrow> outcome" where
  "apply_call (SingleQubitGate g q ps) s = applySingleQubitGate g q ps s"
| "apply_call (CNOT c t) s = applyCNOT c t s"
| "apply_call (CZ c t) s = applyCZ c t s"
| "apply_call (SWAP a b) s = applySWAP a b s"

text \<open>The calls are made one after the other; an exception or a corrupted array ends the run.\<close>
fun apply_calls :: "call list \<Rightarrow> sim \<Rightarrow> outcome" where
  "apply_calls [] s = Returns s"
| "apply_calls (c # cs) s =
    (case apply_call c s of Returns s' \<Rightarrow> apply_calls cs s' | other \<Rightarrow> other)"

section \<open>Notions used in the statements\<close>

text \<open>
  The state of a simulator whose constructor or \<open>reset\<close> has returned: at most 31 qubits
  (beyond that \<open>reset\<close> throws) and a state vector of \<open>2 ^ numQubits\<close> amplitudes.
\<close>
definition well_formed :: "sim \<Rightarrow> bool" where
  "well_formed s \<longleftrightarrow> numQubits s \<le> 31 \<and> length (stateVector s) = 2 ^ numQubits s"

text \<open>A qubit index in range.\<close>
definition in_range :: "sim \<Rightarrow> int \<Rightarrow> bool" where
  "in_range s q \<longleftrightarrow> 0 \<le> q \<and> q < int (numQubits s)"

text \<open>The gate kinds that \<^verbatim>\<open>GATES\<close> and the \<^verbatim>\<open>switch\<close> of \<^verbatim>\<open>applyGate\<close> know.\<close>
definition supported_kinds :: "string set" where
  "supported_kinds =
    {''H'', ''X'', ''Y'', ''Z'', ''S'', ''T'', ''RX'', ''RY'', ''RZ'', ''CNOT'', ''CZ'', ''SWAP'', ''M''}"

text \<open>Index \<open>i\<close> with bit \<open>k\<close> set to \<open>v\<close>.\<close>
definition assign_bit :: "nat \<Rightarrow> bool \<Rightarrow> nat \<Rightarrow> nat" where
  "assign_bit k v i = (if v then set_bit k i else unset_bit k i)"

text \<open>The bit position of qubit \<open>q\<close> in an index: qubit 0 is the most significant of the \<open>n\<close> bits.\<close>
definition pos :: "nat \<Rightarrow> int \<Rightarrow> nat" where
  "pos n q = nat (int n - 1 - q)"

text \<open>Index \<open>i\<close> with its bits \<open>k1\<close> and \<open>k2\<close> exchanged.\<close>
definition swap_index :: "nat \<Rightarrow> nat \<Rightarrow> nat \<Rightarrow> nat" where
  "swap_index k1 k2 i = assign_bit k2 (bit i k1) (assign_bit k1 (bit i k2) i)"

text \<open>An amplitude as a complex number.\<close>
definition cplx :: "amp \<Rightarrow> complex" where
  "cplx a = Complex (re a) (im a)"

text \<open>The element of a matrix in row \<open>r\<close> and column \<open>c\<close> (\<open>False\<close> is 0, \<open>True\<close> is 1).\<close>
definition mat_el :: "entry list list \<Rightarrow> bool \<Rightarrow> bool \<Rightarrow> complex" where
  "mat_el mat r c = cplx (Complex_fromNumber (mat ! (if r then 1 else 0) ! (if c then 1 else 0)))"

text \<open>The matrix has the rows 0 and 1, and both have the columns 0 and 1.\<close>
definition two_by_two :: "entry list list \<Rightarrow> bool" where
  "two_by_two mat \<longleftrightarrow> 2 \<le> length mat \<and> 2 \<le> length (mat ! 0) \<and> 2 \<le> length (mat ! 1)"

text \<open>
  What the body of the inner loop of \<^verbatim>\<open>applySingleQubitGate\<close> does to \<open>newState\<close> when every
  index is in range; \<open>k\<close> is the bit position of the qubit.
\<close>
definition sq_step :: "entry list list \<Rightarrow> amp list \<Rightarrow> nat \<Rightarrow> nat \<Rightarrow> nat \<Rightarrow> amp list \<Rightarrow> amp list" where
  "sq_step mat sv k i newBit newState =
     newState[assign_bit k (newBit = 1) i :=
       Complex_add (Obj (newState ! assign_bit k (newBit = 1) i))
         (Obj (Complex_multiply
            (Obj (Complex_fromNumber (mat ! newBit ! (if bit i k then 1 else 0))))
            (Obj (sv ! i))))]"

text \<open>The sum of the squared magnitudes of a state vector.\<close>
definition norm_sq :: "amp list \<Rightarrow> real" where
  "norm_sq xs = sum_list (map (\<lambda>a. (cmod (cplx a))\<^sup>2) xs)"

text \<open>The columns of the upper left two-by-two block are orthonormal: the block is unitary.\<close>
definition unitary2 :: "entry list list \<Rightarrow> bool" where
  "unitary2 mat \<longleftrightarrow>
     cnj (mat_el mat False False) * mat_el mat False False
       + cnj (mat_el mat True False) * mat_el mat True False = 1
   \<and> cnj (mat_el mat False True) * mat_el mat False True
       + cnj (mat_el mat True True) * mat_el mat True True = 1
   \<and> cnj (mat_el mat False False) * mat_el mat False True
       + cnj (mat_el mat True False) * mat_el mat True True = 0"

text \<open>Index \<open>j\<close> with bit \<open>k\<close> inverted.\<close>
definition flip_index :: "nat \<Rightarrow> nat \<Rightarrow> nat" where
  "flip_index k j = assign_bit k (\<not> bit j k) j"

text \<open>
  The matrix that \<^verbatim>\<open>applySingleQubitGate\<close> takes for a gate name and \<open>params\<close>, when it takes
  one.
\<close>
definition selected_matrix :: "string \<Rightarrow> params option \<Rightarrow> entry list list option" where
  "selected_matrix g ps =
    (case GATES g of
       None \<Rightarrow> None
     | Some gd \<Rightarrow>
         if gtype gd = Rotation then map_option (\<lambda>f. f (theta_or_zero ps)) (getMatrix gd)
         else matrix gd)"

text \<open>The single-qubit and rotation gates.\<close>
definition single_qubit_kinds :: "string set" where
  "single_qubit_kinds = {''H'', ''X'', ''Y'', ''Z'', ''S'', ''T'', ''RX'', ''RY'', ''RZ''}"

text \<open>A call with one of these gates, where it names one, and with its qubit indices in range.\<close>
fun valid_call :: "sim \<Rightarrow> call \<Rightarrow> bool" where
  "valid_call s (SingleQubitGate g q ps) \<longleftrightarrow> g \<in> single_qubit_kinds \<and> in_range s q"
| "valid_call s (CNOT c t) \<longleftrightarrow> in_range s c \<and> in_range s t"
| "valid_call s (CZ c t) \<longleftrightarrow> in_range s c \<and> in_range s t"
| "valid_call s (SWAP a b) \<longleftrightarrow> in_range s a \<and> in_range s b"

text \<open>The probability mass of the first \<open>k\<close> indices, as \<^verbatim>\<open>measure\<close> accumulates it.\<close>
definition cumulative :: "sim \<Rightarrow> nat \<Rightarrow> real" where
  "cumulative s k = sum_list (take k (getProbabilities s))"

text \<open>
  The shift count \<^verbatim>\<open>n - 1 - q\<close> of index \<open>q\<close>, taken modulo 32 as \<^verbatim>\<open><<\<close> and \<^verbatim>\<open>>>\<close> take it, is
  the bit position of no qubit.
\<close>
definition shift_misses :: "sim \<Rightarrow> int \<Rightarrow> bool" where
  "shift_misses s q \<longleftrightarrow> int (numQubits s) \<le> (int (numQubits s) - 1 - q) mod 32"

section \<open>The bitwise index arithmetic within range\<close>

lemma toInt32_id: "- 2147483648 \<le> x \<Longrightarrow> x < 2147483648 \<Longrightarrow> toInt32 x = x"
  by (simp add: toInt32_def signed_take_bit_int_eq_self)

lemma bit_assign_bit: "bit (assign_bit k v i) m \<longleftrightarrow> (if m = k then v else bit i m)"
  by (auto simp: assign_bit_def bit_set_bit_iff bit_unset_bit_iff)

lemma nat_lt_pow_iff_bits: "(i::nat) < 2 ^ n \<longleftrightarrow> (\<forall>m\<ge>n. \<not> bit i m)"
proof
  assume "i < 2 ^ n"
  then have e: "take_bit n i = i" by (rule take_bit_nat_eq_self)
  show "\<forall>m\<ge>n. \<not> bit i m"
  proof (intro allI impI)
    fix m assume "n \<le> m"
    then have "\<not> bit (take_bit n i) m" by (simp add: bit_take_bit_iff)
    then show "\<not> bit i m" unfolding e .
  qed
next
  assume h: "\<forall>m\<ge>n. \<not> bit i m"
  have "take_bit n i = i"
  proof (rule bit_eqI)
    fix m
    show "bit (take_bit n i) m \<longleftrightarrow> bit i m"
      using h by (cases "m < n") (simp_all add: bit_take_bit_iff)
  qed
  then show "i < 2 ^ n" by (simp add: take_bit_nat_eq_self_iff)
qed

lemma assign_bit_less: "i < 2 ^ n \<Longrightarrow> k < n \<Longrightarrow> assign_bit k v i < 2 ^ n"
  by (auto simp: nat_lt_pow_iff_bits bit_assign_bit)

lemma pow_le_31:
  fixes k :: nat
  assumes "k \<le> 30"
  shows "(2::int) ^ k < 2147483648" and "(0::int) < 2 ^ k"
proof -
  have "(2::int) ^ k \<le> 2 ^ 30" using assms by (intro power_increasing) simp_all
  then show "(2::int) ^ k < 2147483648" by simp
  show "(0::int) < 2 ^ k" by simp
qed

lemma toInt32_nonneg_id: "0 \<le> x \<Longrightarrow> x < 2147483648 \<Longrightarrow> toInt32 x = x"
  by (rule toInt32_id) simp_all

lemma int_mod_2_bit: "int x mod 2 = (if odd x then 1 else 0)"
  by presburger

lemma int_less_31:
  assumes "i < 2 ^ 31"
  shows "int i < 2147483648"
proof -
  have "int i < int (2 ^ 31)" using assms by (simp only: of_nat_less_iff)
  also have "int (2 ^ 31) = 2147483648" by simp
  finally show ?thesis .
qed

lemma js_bit:
  assumes "i < 2 ^ 31" "0 \<le> sh" "sh \<le> 30"
  shows "js_and (js_sar (int i) sh) 1 = (if bit i (nat sh) then 1 else 0)"
proof -
  have i: "int i < 2147483648" using assms(1) by (rule int_less_31)
  have m: "sh mod 32 = sh" using assms by simp
  have t: "toInt32 (int i) = int i" using i by (simp add: toInt32_nonneg_id)
  have d0: "0 \<le> drop_bit (nat sh) (int i)" by simp
  have "drop_bit (nat sh) i \<le> i" by (simp add: drop_bit_eq_div)
  then have d1: "drop_bit (nat sh) (int i) \<le> int i" by (simp add: drop_bit_of_nat)
  have t2: "toInt32 (drop_bit (nat sh) (int i)) = drop_bit (nat sh) (int i)"
    using d0 d1 i by (intro toInt32_nonneg_id) linarith+
  have t1: "toInt32 1 = 1" by (simp add: toInt32_def)
  have d: "drop_bit (nat sh) (int i) = int (drop_bit (nat sh) i)" by (simp add: drop_bit_of_nat)
  show ?thesis
    by (simp add: js_and_def js_sar_def m t t2 t1 and_one_eq)
       (simp add: d int_mod_2_bit bit_iff_odd_drop_bit)
qed

lemma js_set:
  assumes "i < 2 ^ 31" "0 \<le> sh" "sh \<le> 30"
  shows "js_or (js_and (int i) (js_not (js_shl 1 sh))) (js_shl (if v then 1 else 0) sh)
     = int (assign_bit (nat sh) v i)"
proof -
  define k where "k = nat sh"
  have k: "k \<le> 30" using assms by (simp add: k_def)
  have i: "int i < 2147483648" using assms(1) by (rule int_less_31)
  have m: "nat (sh mod 32) = k" using assms by (simp add: k_def)
  have t: "toInt32 (int i) = int i" using i by (simp add: toInt32_nonneg_id)
  have t1: "toInt32 1 = 1" "toInt32 0 = 0" by (simp_all add: toInt32_def)
  have p: "toInt32 (2 ^ k) = 2 ^ k" using pow_le_31[OF k] by (intro toInt32_nonneg_id) simp_all
  have shl1: "js_shl 1 sh = 2 ^ k" by (simp add: js_shl_def m t1 p)
  have shlv: "js_shl (if v then 1 else 0) sh = (if v then 2 ^ k else 0)"
    by (simp add: js_shl_def m t1 p)
  have np: "toInt32 (NOT (2 ^ k)) = NOT (2 ^ k)"
  proof -
    have "NOT ((2::int) ^ k) = - (2 ^ k) - 1" by (simp add: not_int_def)
    then show ?thesis using pow_le_31[OF k] by (intro toInt32_id) linarith+
  qed
  have a0: "0 \<le> int i AND NOT (2 ^ k)" by simp
  have a1: "int i AND NOT (2 ^ k) \<le> int i" by simp
  have ta: "toInt32 (int i AND NOT (2 ^ k)) = int i AND NOT (2 ^ k)"
    using a0 a1 i by (intro toInt32_nonneg_id) linarith+
  have tv: "toInt32 (if v then 2 ^ k else 0) = (if v then 2 ^ k else 0)"
    by (simp add: p t1)
  have "js_or (js_and (int i) (js_not (js_shl 1 sh))) (js_shl (if v then 1 else 0) sh)
      = (int i AND NOT (2 ^ k)) OR (if v then 2 ^ k else 0)"
    by (simp only: js_or_def js_and_def js_not_def shl1 shlv p np t ta tv)
  also have "\<dots> = int (assign_bit k v i)"
    by (rule bit_eqI) (auto simp: bit_simps bit_assign_bit)
  finally show ?thesis by (simp add: k_def)
qed

section \<open>The measurement marker and unknown gate kinds\<close>

text \<open>
  Claim C9. A gate operation of kind \<^verbatim>\<open>'M'\<close> dispatched through \<open>applyGate\<close> returns with the
  simulator as it was: every amplitude is unchanged, for every state vector and whatever the
  other fields of the operation are.
\<close>
theorem measurement_marker_is_noop:
  "applyGate \<lparr>gate = ''M'', qubit = q, targetQubit = t, params = ps\<rparr> s = Returns s"
  by (simp add: applyGate_def)

text \<open>
  Claim C6, as the code has it. For a kind outside the supported ones, \<open>applySingleQubitGate\<close>
  and \<open>applyGate\<close> both return normally (after a console message, not modelled) with the
  simulator unchanged: no matrix is applied, and no error reaches the caller.
\<close>
theorem unknown_gate_returns_unchanged:
  "g \<notin> supported_kinds \<Longrightarrow>
     applySingleQubitGate g q ps s = Returns s
     \<and> applyGate \<lparr>gate = g, qubit = q, targetQubit = t, params = ps\<rparr> s = Returns s"
  by (simp add: supported_kinds_def applySingleQubitGate_def applyGate_def GATES_def)

theorem unknown_gate_returns_unchanged_witness:
  "''FOO'' \<notin> supported_kinds
   \<and> applySingleQubitGate ''FOO'' 0 None \<lparr>numQubits = 1, stateVector = [\<lparr>re = 1, im = 0\<rparr>, \<lparr>re = 0, im = 0\<rparr>]\<rparr>
       = Returns \<lparr>numQubits = 1, stateVector = [\<lparr>re = 1, im = 0\<rparr>, \<lparr>re = 0, im = 0\<rparr>]\<rparr>
   \<and> applyGate \<lparr>gate = ''FOO'', qubit = 0, targetQubit = 0, params = None\<rparr>
         \<lparr>numQubits = 1, stateVector = [\<lparr>re = 1, im = 0\<rparr>, \<lparr>re = 0, im = 0\<rparr>]\<rparr>
       = Returns \<lparr>numQubits = 1, stateVector = [\<lparr>re = 1, im = 0\<rparr>, \<lparr>re = 0, im = 0\<rparr>]\<rparr>"
proof -
  have h: "''FOO'' \<notin> supported_kinds" by (simp add: supported_kinds_def)
  show ?thesis
    using h unknown_gate_returns_unchanged [OF h, of 0 None
        "\<lparr>numQubits = 1, stateVector = [\<lparr>re = 1, im = 0\<rparr>, \<lparr>re = 0, im = 0\<rparr>]\<rparr>" 0]
    by simp
qed

text \<open>
  The claim as the specification states it fails: the call with the unknown kind \<^verbatim>\<open>'QFT'\<close>
  does not throw, it returns.
\<close>
theorem unknown_gate_not_fatal:
  "applyGate \<lparr>gate = ''QFT'', qubit = 0, targetQubit = 0, params = None\<rparr>
       \<lparr>numQubits = 1, stateVector = [\<lparr>re = 1, im = 0\<rparr>, \<lparr>re = 0, im = 0\<rparr>]\<rparr>
     = Returns \<lparr>numQubits = 1, stateVector = [\<lparr>re = 1, im = 0\<rparr>, \<lparr>re = 0, im = 0\<rparr>]\<rparr>
   \<and> applySingleQubitGate ''QFT'' 0 None
       \<lparr>numQubits = 1, stateVector = [\<lparr>re = 1, im = 0\<rparr>, \<lparr>re = 0, im = 0\<rparr>]\<rparr>
     = Returns \<lparr>numQubits = 1, stateVector = [\<lparr>re = 1, im = 0\<rparr>, \<lparr>re = 0, im = 0\<rparr>]\<rparr>"
  by (simp add: applySingleQubitGate_def applyGate_def GATES_def)

section \<open>Controlled-Z\<close>

lemma cz_loop_commute:
  "cz_loop n c t is sv = cz_loop n t c is sv"
  by (induction "is" arbitrary: sv) (auto simp: Let_def split: option.splits)

text \<open>
  Claim C10. \<open>applyCZ c t\<close> and \<open>applyCZ t c\<close> end in the same way with the same state vector,
  for every simulator state and all indices.
\<close>
theorem applyCZ_symmetric:
  "applyCZ c t s = applyCZ t c s"
  by (simp add: applyCZ_def cz_loop_commute [of _ c t])

section \<open>SWAP\<close>

lemma pos_less: "0 \<le> q \<Longrightarrow> q < int n \<Longrightarrow> pos n q < n"
  by (simp add: pos_def)

lemma less_pow_31: 
  assumes "i < 2 ^ n" "n \<le> 31" shows "i < (2::nat) ^ 31"
proof -
  have "(2::nat) ^ n \<le> 2 ^ 31" using assms(2) by (intro power_increasing) simp_all
  with assms(1) show ?thesis by linarith
qed

lemma js_bit_q:
  assumes "n \<le> 31" "0 \<le> q" "q < int n" "i < 2 ^ n"
  shows "js_and (js_sar (int i) (int n - 1 - q)) 1 = (if bit i (pos n q) then 1 else 0)"
  unfolding pos_def using assms by (intro js_bit less_pow_31[of i n]) simp_all

lemma js_set_q:
  assumes "n \<le> 31" "0 \<le> q" "q < int n" "i < 2 ^ n"
  shows "js_or (js_and (int i) (js_not (js_shl 1 (int n - 1 - q))))
               (js_shl (if v then 1 else 0) (int n - 1 - q))
         = int (assign_bit (pos n q) v i)"
  unfolding pos_def using assms by (intro js_set less_pow_31[of i n]) simp_all

lemma js_get_nat: "i < length xs \<Longrightarrow> js_get xs (int i) = Some (xs ! i)"
  by (simp add: js_get_def)

lemma bit_swap_index:
  "bit (swap_index k1 k2 i) m \<longleftrightarrow> (if m = k2 then bit i k1 else if m = k1 then bit i k2 else bit i m)"
  by (auto simp: swap_index_def bit_assign_bit)

lemma swap_index_involution: "swap_index k1 k2 (swap_index k1 k2 i) = i"
  by (rule bit_eqI) (auto simp: bit_swap_index)

lemma swap_index_less: "i < 2 ^ n \<Longrightarrow> k1 < n \<Longrightarrow> k2 < n \<Longrightarrow> swap_index k1 k2 i < 2 ^ n"
  by (simp add: swap_index_def assign_bit_less)

lemma swap_body_in_range:
  assumes n: "n \<le> 31" and q1: "0 \<le> q1" "q1 < int n" and q2: "0 \<le> q2" "q2 < int n"
    and i: "i < 2 ^ n" and sv: "length sv = 2 ^ n" and ns: "length ns = 2 ^ n"
  shows "swap_body sv (int n) q1 q2 i (Some ns)
         = Some (ns[swap_index (pos n q1) (pos n q2) i := sv ! i])"
proof -
  let ?k1 = "pos n q1" and ?k2 = "pos n q2"
  let ?i1 = "assign_bit ?k1 (bit i ?k2) i"
  have i1: "?i1 < 2 ^ n" using i q1 by (intro assign_bit_less pos_less)
  have b1: "js_and (js_sar (int i) (int n - 1 - q1)) 1 = (if bit i ?k1 then 1 else 0)"
    using n q1 i by (rule js_bit_q)
  have b2: "js_and (js_sar (int i) (int n - 1 - q2)) 1 = (if bit i ?k2 then 1 else 0)"
    using n q2 i by (rule js_bit_q)
  have s1: "js_or (js_and (int i) (js_not (js_shl 1 (int n - 1 - q1))))
               (js_shl (if bit i ?k2 then 1 else 0) (int n - 1 - q1)) = int ?i1"
    using n q1 i by (rule js_set_q)
  have s2: "js_or (js_and (int ?i1) (js_not (js_shl 1 (int n - 1 - q2))))
               (js_shl (if bit i ?k1 then 1 else 0) (int n - 1 - q2))
            = int (swap_index ?k1 ?k2 i)"
    unfolding swap_index_def using n q2 i1 by (rule js_set_q)
  have lt: "swap_index ?k1 ?k2 i < 2 ^ n"
    using i q1 q2 by (intro swap_index_less pos_less)
  have g: "js_get sv (int i) = Some (sv ! i)" using i sv by (simp add: js_get_nat)
  show ?thesis
    unfolding swap_body_def Let_def b1 b2 s1 s2 g using lt ns by simp
qed

lemma fold_option_pure:
  assumes "\<And>i acc. i \<in> set is \<Longrightarrow> P acc \<Longrightarrow> body i (Some acc) = Some (f i acc) \<and> P (f i acc)"
    and "P acc"
  shows "fold body is (Some acc) = Some (fold f is acc) \<and> P (fold f is acc)"
  using assms by (induction "is" arbitrary: acc) auto

lemma scatter_length: "length (fold (\<lambda>i acc. acc[t i := v i]) is init) = length init"
  by (induction "is" arbitrary: init) auto

lemma scatter_nth:
  assumes inv: "\<And>i. i < N \<Longrightarrow> t i < N \<and> t (t i) = i"
    and len: "length init = N" and m: "m \<le> N" and j: "j < N"
  shows "fold (\<lambda>i acc. acc[t i := v i]) [0..<m] init ! j
         = (if t j < m then v (t j) else init ! j)"
  using m
proof (induction m)
  case 0
  then show ?case by simp
next
  case (Suc m)
  then have m: "m < N" and IH: "fold (\<lambda>i acc. acc[t i := v i]) [0..<m] init ! j
         = (if t j < m then v (t j) else init ! j)" by simp_all
  have e: "t m = j \<longleftrightarrow> t j = m" using inv[OF m] inv[OF j] by auto
  have l: "t m < length (fold (\<lambda>i acc. acc[t i := v i]) [0..<m] init)"
    using inv[OF m] len by (simp add: scatter_length)
  show ?case
  proof (cases "t j = m")
    case True
    then have "t m = j" using e by simp
    then show ?thesis using l True by simp
  next
    case False
    then have "t m \<noteq> j" using e by simp
    then show ?thesis using False IH by (auto simp: less_Suc_eq)
  qed
qed

lemma applySWAP_in_range:
  assumes wf: "well_formed s" and a: "in_range s a" and b: "in_range s b"
  shows "\<exists>ns. applySWAP a b s = Returns (s\<lparr>stateVector := ns\<rparr>)
          \<and> length ns = 2 ^ numQubits s
          \<and> (\<forall>j < 2 ^ numQubits s.
               ns ! j = stateVector s ! swap_index (pos (numQubits s) a) (pos (numQubits s) b) j)"
proof -
  let ?n = "numQubits s" and ?sv = "stateVector s"
  let ?N = "(2::nat) ^ ?n"
  let ?t = "swap_index (pos ?n a) (pos ?n b)"
  let ?f = "\<lambda>i acc. acc[?t i := ?sv ! i]"
  let ?init = "replicate ?N (Complex_create 0 0)"
  have n: "?n \<le> 31" and sv: "length ?sv = ?N" using wf by (simp_all add: well_formed_def)
  have qa: "0 \<le> a" "a < int ?n" and qb: "0 \<le> b" "b < int ?n"
    using a b by (simp_all add: in_range_def)
  have ka: "pos ?n a < ?n" and kb: "pos ?n b < ?n" using qa qb by (simp_all add: pos_less)
  have step: "\<And>i acc. i \<in> set [0..<?N] \<Longrightarrow> length acc = ?N \<Longrightarrow>
      swap_body ?sv (int ?n) a b i (Some acc) = Some (?f i acc) \<and> length (?f i acc) = ?N"
    using swap_body_in_range[OF n qa qb _ sv] by simp
  have fo: "fold (swap_body ?sv (int ?n) a b) [0..<?N] (Some ?init) = Some (fold ?f [0..<?N] ?init)"
    using fold_option_pure[of "[0..<?N]" "\<lambda>acc. length acc = ?N" "swap_body ?sv (int ?n) a b" ?f ?init, OF step]
    by simp
  have big: "\<not> ?N > max_array_length"
  proof -
    have "?N \<le> 2 ^ 31" using n by (intro power_increasing) simp_all
    then show ?thesis by (simp add: max_array_length_def)
  qed
  have inv: "\<And>i. i < ?N \<Longrightarrow> ?t i < ?N \<and> ?t (?t i) = i"
    using ka kb by (simp add: swap_index_less swap_index_involution)
  have nth: "\<forall>j < ?N. fold ?f [0..<?N] ?init ! j = ?sv ! ?t j"
  proof (intro allI impI)
    fix j assume j: "j < ?N"
    have "fold ?f [0..<?N] ?init ! j = (if ?t j < ?N then ?sv ! (?t j) else ?init ! j)"
      by (rule scatter_nth[where N = ?N and t = ?t and v = "\<lambda>i. ?sv ! i", OF inv _ _ j]) simp_all
    then show "fold ?f [0..<?N] ?init ! j = ?sv ! ?t j" using inv[OF j] by simp
  qed
  have len: "length (fold ?f [0..<?N] ?init) = ?N" by (simp add: scatter_length)
  have "applySWAP a b s = Returns (s\<lparr>stateVector := fold ?f [0..<?N] ?init\<rparr>)"
    using big fo by (simp add: applySWAP_def Let_def)
  then show ?thesis using nth len by blast
qed

text \<open>
  Claim C7. On a state vector of \<open>2 ^ numQubits\<close> amplitudes and for qubit indices \<open>a\<close>, \<open>b\<close>
  in range (distinct or not), \<open>applySWAP a b\<close> returns, and applied a second time it returns
  the simulator exactly as it was before the first: every amplitude is back at its value.
\<close>
theorem applySWAP_twice:
  assumes "well_formed s" "in_range s a" "in_range s b"
  shows "\<exists>s1. applySWAP a b s = Returns s1 \<and> applySWAP a b s1 = Returns s"
proof -
  let ?N = "(2::nat) ^ numQubits s"
  let ?t = "swap_index (pos (numQubits s) a) (pos (numQubits s) b)"
  obtain ns where 1: "applySWAP a b s = Returns (s\<lparr>stateVector := ns\<rparr>)"
    and l1: "length ns = ?N" and n1: "\<forall>j < ?N. ns ! j = stateVector s ! ?t j"
    using applySWAP_in_range[OF assms] by blast
  let ?s1 = "s\<lparr>stateVector := ns\<rparr>"
  have wf1: "well_formed ?s1" using assms(1) l1 by (simp add: well_formed_def)
  have r1: "in_range ?s1 a" "in_range ?s1 b" using assms(2,3) by (simp_all add: in_range_def)
  obtain ns2 where 2: "applySWAP a b ?s1 = Returns (?s1\<lparr>stateVector := ns2\<rparr>)"
    and l2: "length ns2 = ?N" and n2: "\<forall>j < ?N. ns2 ! j = ns ! ?t j"
    using applySWAP_in_range[OF wf1 r1] by auto
  have ka: "pos (numQubits s) a < numQubits s" and kb: "pos (numQubits s) b < numQubits s"
    using assms(2,3) by (simp_all add: in_range_def pos_less)
  have "ns2 = stateVector s"
  proof (rule nth_equalityI)
    show "length ns2 = length (stateVector s)" using l2 assms(1) by (simp add: well_formed_def)
  next
    fix j assume "j < length ns2"
    then have j: "j < ?N" using l2 by simp
    then have tj: "?t j < ?N" using ka kb by (simp add: swap_index_less)
    have "ns2 ! j = ns ! ?t j" using n2 j by simp
    also have "\<dots> = stateVector s ! ?t (?t j)" using n1 tj by simp
    finally show "ns2 ! j = stateVector s ! j" by (simp add: swap_index_involution)
  qed
  then have "?s1\<lparr>stateVector := ns2\<rparr> = s" by simp
  with 1 2 show ?thesis by simp
qed

theorem applySWAP_twice_witness:
  "well_formed \<lparr>numQubits = 2, stateVector =
       [\<lparr>re = 1, im = 2\<rparr>, \<lparr>re = 3, im = 4\<rparr>, \<lparr>re = 5, im = 6\<rparr>, \<lparr>re = 7, im = 8\<rparr>]\<rparr>
   \<and> in_range \<lparr>numQubits = 2, stateVector =
       [\<lparr>re = 1, im = 2\<rparr>, \<lparr>re = 3, im = 4\<rparr>, \<lparr>re = 5, im = 6\<rparr>, \<lparr>re = 7, im = 8\<rparr>]\<rparr> 0
   \<and> in_range \<lparr>numQubits = 2, stateVector =
       [\<lparr>re = 1, im = 2\<rparr>, \<lparr>re = 3, im = 4\<rparr>, \<lparr>re = 5, im = 6\<rparr>, \<lparr>re = 7, im = 8\<rparr>]\<rparr> 1
   \<and> (\<exists>s1. applySWAP 0 1 \<lparr>numQubits = 2, stateVector =
              [\<lparr>re = 1, im = 2\<rparr>, \<lparr>re = 3, im = 4\<rparr>, \<lparr>re = 5, im = 6\<rparr>, \<lparr>re = 7, im = 8\<rparr>]\<rparr>
            = Returns s1
          \<and> applySWAP 0 1 s1 = Returns \<lparr>numQubits = 2, stateVector =
              [\<lparr>re = 1, im = 2\<rparr>, \<lparr>re = 3, im = 4\<rparr>, \<lparr>re = 5, im = 6\<rparr>, \<lparr>re = 7, im = 8\<rparr>]\<rparr>)"
proof -
  let ?s = "\<lparr>numQubits = 2, stateVector =
       [\<lparr>re = 1, im = 2\<rparr>, \<lparr>re = 3, im = 4\<rparr>, \<lparr>re = 5, im = 6\<rparr>, \<lparr>re = 7, im = 8\<rparr>]\<rparr>"
  have w: "well_formed ?s" by (simp add: well_formed_def)
  have a: "in_range ?s 0" and b: "in_range ?s 1" by (simp_all add: in_range_def)
  show ?thesis
    using w a b applySWAP_twice [OF w a b] by simp
qed

section \<open>The loop of applySingleQubitGate within range\<close>

lemma cplx_add [simp]: "cplx (Complex_add (Obj a) (Obj b)) = cplx a + cplx b"
  by (simp add: cplx_def Complex_add_def complex_eq_iff)

lemma cplx_multiply [simp]: "cplx (Complex_multiply (Obj a) (Obj b)) = cplx a * cplx b"
  by (simp add: cplx_def Complex_multiply_def complex_eq_iff)

lemma cplx_create [simp]: "cplx (Complex_create a b) = Complex a b"
  by (simp add: cplx_def Complex_create_def)

lemma for_each_pure:
  assumes "\<And>i acc. i \<in> set is \<Longrightarrow> P acc \<Longrightarrow> body i acc = Inr (f i acc) \<and> P (f i acc)"
    and "P acc"
  shows "for_each is body acc = Inr (fold f is acc) \<and> P (fold f is acc)"
  using assms by (induction "is" arbitrary: acc) auto

lemma sq_body_in_range:
  assumes n: "n \<le> 31" and q: "0 \<le> q" "q < int n"
    and i: "i < 2 ^ n" and sv: "length sv = 2 ^ n" and ns: "length ns = 2 ^ n"
    and nb: "newBit < 2" and mat: "two_by_two mat"
  shows "sq_body mat sv (int n) q i newBit ns = Inr (sq_step mat sv (pos n q) i newBit ns)"
proof -
  let ?k = "pos n q"
  let ?t = "assign_bit ?k (newBit = 1) i"
  have t: "?t < 2 ^ n" using i q by (intro assign_bit_less pos_less)
  have b: "js_and (js_sar (int i) (int n - 1 - q)) 1 = (if bit i ?k then 1 else 0)"
    using n q i by (rule js_bit_q)
  have nbi: "int newBit = (if newBit = 1 then 1 else 0)" using nb by auto
  have s: "js_or (js_and (int i) (js_not (js_shl 1 (int n - 1 - q))))
               (js_shl (int newBit) (int n - 1 - q)) = int ?t"
    unfolding nbi using n q i by (rule js_set_q)
  have g1: "js_get mat (int newBit) = Some (mat ! newBit)"
    using nb mat by (simp add: js_get_nat two_by_two_def)
  have rl: "2 \<le> length (mat ! newBit)"
    using nb mat by (cases "newBit = 0") (auto simp: two_by_two_def less_2_cases_iff)
  have g2: "js_get (mat ! newBit) 0 = Some (mat ! newBit ! 0)"
    "js_get (mat ! newBit) 1 = Some (mat ! newBit ! 1)"
    using rl by (auto simp: js_get_def)
  have g3: "js_get sv (int i) = Some (sv ! i)" using i sv by (simp add: js_get_nat)
  have g4: "js_get ns (int ?t) = Some (ns ! ?t)" using t ns by (simp add: js_get_nat)
  show ?thesis
    unfolding sq_body_def Let_def b s g1 g3 g4 by (simp add: sq_step_def g2)
qed

lemma sq_step_length [simp]: "length (sq_step mat sv k i newBit ns) = length ns"
  by (simp add: sq_step_def)

lemma assign_bit_idem: "assign_bit k v (assign_bit k w i) = assign_bit k v i"
  by (rule bit_eqI) (auto simp: bit_assign_bit)

lemma assign_bit_same: "assign_bit k (bit i k) i = i"
  by (rule bit_eqI) (auto simp: bit_assign_bit)

lemma bit_assign_bit_same: "bit (assign_bit k v i) k = v"
  by (simp add: bit_assign_bit)

lemma assign_bit_neq: "assign_bit k True i \<noteq> assign_bit k False j"
  by (metis bit_assign_bit_same)

lemma upt_2: "[0..<2] = [0, 1]"
  by (simp add: upt_rec)

lemma sq_inner_nth:
  assumes i: "i < 2 ^ n" and k: "k < n" and ns: "length ns = 2 ^ n" and j: "j < 2 ^ n"
  shows "cplx (fold (sq_step mat sv k i) [0..<2] ns ! j)
    = cplx (ns ! j)
      + (if j = assign_bit k (bit j k) i then mat_el mat (bit j k) (bit i k) * cplx (sv ! i) else 0)"
proof -
  let ?t0 = "assign_bit k False i" and ?t1 = "assign_bit k True i"
  have t: "?t0 < 2 ^ n" "?t1 < 2 ^ n" using i k by (simp_all add: assign_bit_less)
  have ne: "?t1 \<noteq> ?t0" by (rule assign_bit_neq)
  show ?thesis
  proof (cases "bit j k")
    case True
    then have "j \<noteq> ?t0" by (metis bit_assign_bit_same)
    then show ?thesis using True t ns ne
      by (auto simp: upt_2 sq_step_def mat_el_def)
  next
    case False
    then have "j \<noteq> ?t1" by (metis bit_assign_bit_same)
    then show ?thesis using False t ns ne
      by (auto simp: upt_2 sq_step_def mat_el_def)
  qed
qed

lemma sq_outer_nth:
  assumes k: "k < n" and init: "length init = 2 ^ n" and j: "j < 2 ^ n" and m: "m \<le> 2 ^ n"
  shows "length (fold (\<lambda>i. fold (sq_step mat sv k i) [0..<2]) [0..<m] init) = 2 ^ n
   \<and> cplx (fold (\<lambda>i. fold (sq_step mat sv k i) [0..<2]) [0..<m] init ! j)
    = cplx (init ! j)
      + (if assign_bit k False j < m
         then mat_el mat (bit j k) False * cplx (sv ! assign_bit k False j) else 0)
      + (if assign_bit k True j < m
         then mat_el mat (bit j k) True * cplx (sv ! assign_bit k True j) else 0)"
  using m
proof (induction m)
  case 0
  then show ?case using init by simp
next
  case (Suc m)
  let ?G = "fold (\<lambda>i. fold (sq_step mat sv k i) [0..<2]) [0..<m] init"
  let ?j0 = "assign_bit k False j" and ?j1 = "assign_bit k True j"
  from Suc have mN: "m < 2 ^ n" and len: "length ?G = 2 ^ n"
    and IH: "cplx (?G ! j) = cplx (init ! j)
      + (if ?j0 < m then mat_el mat (bit j k) False * cplx (sv ! ?j0) else 0)
      + (if ?j1 < m then mat_el mat (bit j k) True * cplx (sv ! ?j1) else 0)"
    by simp_all
  have step: "cplx (fold (sq_step mat sv k m) [0..<2] ?G ! j)
    = cplx (?G ! j)
      + (if j = assign_bit k (bit j k) m then mat_el mat (bit j k) (bit m k) * cplx (sv ! m) else 0)"
    using mN k len j by (rule sq_inner_nth)
  have len': "length (fold (sq_step mat sv k m) [0..<2] ?G) = 2 ^ n"
    using len by (simp add: upt_2)
  have ne: "?j0 \<noteq> ?j1" using assign_bit_neq[of k j j] by simp
  consider (a) "m = ?j0" | (b) "m = ?j1" | (c) "m \<noteq> ?j0" "m \<noteq> ?j1" by blast
  then have "cplx (fold (sq_step mat sv k m) [0..<2] ?G ! j) = cplx (init ! j)
      + (if ?j0 < Suc m then mat_el mat (bit j k) False * cplx (sv ! ?j0) else 0)
      + (if ?j1 < Suc m then mat_el mat (bit j k) True * cplx (sv ! ?j1) else 0)"
  proof cases
    case a
    have 1: "assign_bit k (bit j k) m = j" by (simp add: a assign_bit_idem assign_bit_same)
    have 2: "bit m k = False" by (simp add: a bit_assign_bit_same)
    have 3: "?j1 < Suc m \<longleftrightarrow> ?j1 < m" using a ne by (auto simp: less_Suc_eq)
    have 4: "\<not> ?j0 < m" "?j0 < Suc m" using a by simp_all
    show ?thesis unfolding step IH 3 using 1 2 4 a by simp
  next
    case b
    have 1: "assign_bit k (bit j k) m = j" by (simp add: b assign_bit_idem assign_bit_same)
    have 2: "bit m k = True" by (simp add: b bit_assign_bit_same)
    have 3: "?j0 < Suc m \<longleftrightarrow> ?j0 < m" using b ne by (auto simp: less_Suc_eq)
    have 4: "\<not> ?j1 < m" "?j1 < Suc m" using b by simp_all
    show ?thesis unfolding step IH 3 using 1 2 4 b by simp
  next
    case c
    have 1: "assign_bit k (bit j k) m \<noteq> j"
    proof
      assume e: "assign_bit k (bit j k) m = j"
      have "m = assign_bit k (bit m k) m" by (simp add: assign_bit_same)
      also have "\<dots> = assign_bit k (bit m k) j"
        by (subst e[symmetric]) (simp add: assign_bit_idem)
      finally show False using c by (cases "bit m k") simp_all
    qed
    have 3: "?j0 < Suc m \<longleftrightarrow> ?j0 < m" "?j1 < Suc m \<longleftrightarrow> ?j1 < m"
      using c by (auto simp: less_Suc_eq)
    show ?thesis unfolding step IH 3 using 1 by simp
  qed
  then show ?case using len' by simp
qed

lemma sq_loop_in_range:
  assumes n: "n \<le> 31" and q: "0 \<le> q" "q < int n" and sv: "length sv = 2 ^ n"
    and mat: "two_by_two mat"
  shows "\<exists>ns. for_each [0..<2 ^ n] (\<lambda>i. for_each [0..<2] (sq_body mat sv (int n) q i))
                 (replicate (2 ^ n) (Complex_create 0 0)) = Inr ns
     \<and> length ns = 2 ^ n
     \<and> (\<forall>j < 2 ^ n. cplx (ns ! j)
           = mat_el mat (bit j (pos n q)) False * cplx (sv ! assign_bit (pos n q) False j)
           + mat_el mat (bit j (pos n q)) True * cplx (sv ! assign_bit (pos n q) True j))"
proof -
  let ?k = "pos n q" and ?N = "(2::nat) ^ n"
  let ?init = "replicate ?N (Complex_create 0 0)"
  let ?inner = "\<lambda>i. fold (sq_step mat sv ?k i) [0..<2]"
  have k: "?k < n" using q by (rule pos_less)
  have inner: "\<And>i acc. i \<in> set [0..<?N] \<Longrightarrow> length acc = ?N \<Longrightarrow>
      for_each [0..<2] (sq_body mat sv (int n) q i) acc = Inr (?inner i acc)
      \<and> length (?inner i acc) = ?N"
  proof -
    fix i :: nat and acc :: "amp list"
    assume i: "i \<in> set [0..<?N]" and acc: "length acc = ?N"
    have "\<And>b a. b \<in> set [0..<2] \<Longrightarrow> length a = ?N \<Longrightarrow>
        sq_body mat sv (int n) q i b a = Inr (sq_step mat sv ?k i b a)
        \<and> length (sq_step mat sv ?k i b a) = ?N"
      using sq_body_in_range[OF n q _ sv _ _ mat, of i] i by simp
    from for_each_pure[of "[0..<2]" "\<lambda>a. length a = ?N" "sq_body mat sv (int n) q i"
        "sq_step mat sv ?k i" acc, OF this acc]
    show "for_each [0..<2] (sq_body mat sv (int n) q i) acc = Inr (?inner i acc)
      \<and> length (?inner i acc) = ?N" by simp
  qed
  have outer: "for_each [0..<?N] (\<lambda>i. for_each [0..<2] (sq_body mat sv (int n) q i)) ?init
      = Inr (fold ?inner [0..<?N] ?init)"
    using for_each_pure[of "[0..<?N]" "\<lambda>a. length a = ?N"
        "\<lambda>i. for_each [0..<2] (sq_body mat sv (int n) q i)" ?inner ?init, OF inner]
    by simp
  have nth: "\<forall>j < ?N. cplx (fold ?inner [0..<?N] ?init ! j)
           = mat_el mat (bit j ?k) False * cplx (sv ! assign_bit ?k False j)
           + mat_el mat (bit j ?k) True * cplx (sv ! assign_bit ?k True j)"
  proof (intro allI impI)
    fix j assume j: "j < ?N"
    have a: "assign_bit ?k False j < ?N" "assign_bit ?k True j < ?N"
      using j k by (simp_all add: assign_bit_less)
    have z: "cplx (?init ! j) = 0" using j by (simp add: zero_complex.code)
    from sq_outer_nth[OF k _ j, of ?init ?N mat sv] a z
    show "cplx (fold ?inner [0..<?N] ?init ! j)
           = mat_el mat (bit j ?k) False * cplx (sv ! assign_bit ?k False j)
           + mat_el mat (bit j ?k) True * cplx (sv ! assign_bit ?k True j)" by simp
  qed
  have len: "length (fold ?inner [0..<?N] ?init) = ?N"
    using sq_outer_nth[OF k, of ?init 0 ?N mat sv] by simp
  show ?thesis using outer nth len by blast
qed

section \<open>Unitary two-by-two matrices preserve the squared norm\<close>

lemma probability_cmod:
  "(let mag = Complex_magnitude (Obj c) in mag * mag) = (cmod (cplx c))\<^sup>2"
proof -
  have "0 \<le> re c * re c + im c * im c" by simp
  then show ?thesis
    by (simp add: Complex_magnitude_def cplx_def cmod_def power2_eq_square)
qed

lemma sum_getProbabilities: "sum_list (getProbabilities s) = norm_sq (stateVector s)"
  unfolding getProbabilities_def norm_sq_def probability_cmod ..

lemma norm_sq_sum: "norm_sq xs = (\<Sum>j<length xs. (cmod (cplx (xs ! j)))\<^sup>2)"
proof -
  have "norm_sq xs = (\<Sum>j = 0..<length xs. map (\<lambda>a. (cmod (cplx a))\<^sup>2) xs ! j)"
    unfolding norm_sq_def by (subst sum_list_sum_nth) simp
  also have "\<dots> = (\<Sum>j = 0..<length xs. (cmod (cplx (xs ! j)))\<^sup>2)"
    by (rule sum.cong) simp_all
  finally show ?thesis by (simp add: atLeast0LessThan)
qed

lemma unitary_pair:
  fixes a b c d x y :: complex
  assumes 1: "cnj a * a + cnj c * c = 1" and 2: "cnj b * b + cnj d * d = 1"
    and 3: "cnj a * b + cnj c * d = 0"
  shows "(cmod (a * x + b * y))\<^sup>2 + (cmod (c * x + d * y))\<^sup>2 = (cmod x)\<^sup>2 + (cmod y)\<^sup>2"
proof -
  have 4: "a * cnj b + c * cnj d = 0"
  proof -
    have "cnj (cnj a * b + cnj c * d) = 0" using 3 by simp
    then show ?thesis by (simp add: mult.commute)
  qed
  have "(a * x + b * y) * cnj (a * x + b * y) + (c * x + d * y) * cnj (c * x + d * y)
      = (cnj a * a + cnj c * c) * (x * cnj x) + (cnj b * b + cnj d * d) * (y * cnj y)
        + (cnj a * b + cnj c * d) * (cnj x * y) + (a * cnj b + c * cnj d) * (x * cnj y)"
    by (simp add: algebra_simps)
  also have "\<dots> = x * cnj x + y * cnj y" by (simp add: 1 2 3 4)
  finally have "complex_of_real ((cmod (a * x + b * y))\<^sup>2)
        + complex_of_real ((cmod (c * x + d * y))\<^sup>2)
      = complex_of_real ((cmod x)\<^sup>2) + complex_of_real ((cmod y)\<^sup>2)"
    by (simp only: complex_norm_square)
  then have "complex_of_real ((cmod (a * x + b * y))\<^sup>2 + (cmod (c * x + d * y))\<^sup>2)
      = complex_of_real ((cmod x)\<^sup>2 + (cmod y)\<^sup>2)"
    by (simp only: of_real_add)
  then show ?thesis by (simp only: of_real_eq_iff)
qed

lemma bit_flip_index: "bit (flip_index k j) m \<longleftrightarrow> (if m = k then \<not> bit j k else bit j m)"
  by (simp add: flip_index_def bit_assign_bit)

lemma flip_index_involution: "flip_index k (flip_index k j) = j"
  by (rule bit_eqI) (auto simp: bit_flip_index)

lemma flip_index_less: "j < 2 ^ n \<Longrightarrow> k < n \<Longrightarrow> flip_index k j < 2 ^ n"
  by (simp add: flip_index_def assign_bit_less)

lemma sum_flip:
  fixes h :: "nat \<Rightarrow> real"
  assumes "k < n"
  shows "(\<Sum>j<2 ^ n. h (flip_index k j)) = (\<Sum>j<2 ^ n. h j)"
  by (rule sum.reindex_bij_witness[where i = "flip_index k" and j = "flip_index k"])
     (use assms in \<open>simp_all add: flip_index_involution flip_index_less\<close>)

lemma sum_by_pairs:
  fixes f g :: "nat \<Rightarrow> real"
  assumes k: "k < n"
    and pair: "\<And>j. j < 2 ^ n \<Longrightarrow> f j + f (flip_index k j) = g j + g (flip_index k j)"
  shows "(\<Sum>j<2 ^ n. f j) = (\<Sum>j<2 ^ n. g j)"
proof -
  have "2 * (\<Sum>j<2 ^ n. f j) = (\<Sum>j<2 ^ n. f j) + (\<Sum>j<2 ^ n. f (flip_index k j))"
    by (simp add: sum_flip[OF k])
  also have "\<dots> = (\<Sum>j<2 ^ n. f j + f (flip_index k j))" by (simp add: sum.distrib)
  also have "\<dots> = (\<Sum>j<2 ^ n. g j + g (flip_index k j))"
    by (rule sum.cong) (simp_all add: pair)
  also have "\<dots> = (\<Sum>j<2 ^ n. g j) + (\<Sum>j<2 ^ n. g (flip_index k j))" by (simp add: sum.distrib)
  also have "\<dots> = 2 * (\<Sum>j<2 ^ n. g j)" by (simp add: sum_flip[OF k])
  finally show ?thesis by simp
qed

lemma unitary_preserves_norm:
  assumes k: "k < n" and ns: "length ns = 2 ^ n" and sv: "length sv = 2 ^ n"
    and u: "unitary2 mat"
    and nth: "\<And>j. j < 2 ^ n \<Longrightarrow> cplx (ns ! j)
           = mat_el mat (bit j k) False * cplx (sv ! assign_bit k False j)
           + mat_el mat (bit j k) True * cplx (sv ! assign_bit k True j)"
  shows "norm_sq ns = norm_sq sv"
proof -
  let ?f = "\<lambda>j. (cmod (cplx (ns ! j)))\<^sup>2" and ?g = "\<lambda>j. (cmod (cplx (sv ! j)))\<^sup>2"
  have pair: "?f j + ?f (flip_index k j) = ?g j + ?g (flip_index k j)" if j: "j < 2 ^ n" for j
  proof -
    let ?j0 = "assign_bit k False j" and ?j1 = "assign_bit k True j"
    let ?x = "cplx (sv ! ?j0)" and ?y = "cplx (sv ! ?j1)"
    have fj: "flip_index k j < 2 ^ n" using j k by (rule flip_index_less)
    have f0: "assign_bit k False (flip_index k j) = ?j0"
      and f1: "assign_bit k True (flip_index k j) = ?j1"
      by (simp_all add: flip_index_def assign_bit_idem)
    have bf: "bit (flip_index k j) k = (\<not> bit j k)" by (simp add: bit_flip_index)
    have nj: "cplx (ns ! j) = mat_el mat (bit j k) False * ?x + mat_el mat (bit j k) True * ?y"
      using nth[OF j] .
    have nf: "cplx (ns ! flip_index k j)
        = mat_el mat (\<not> bit j k) False * ?x + mat_el mat (\<not> bit j k) True * ?y"
      using nth[OF fj] by (simp only: f0 f1 bf)
    have up: "(cmod (mat_el mat False False * ?x + mat_el mat False True * ?y))\<^sup>2
            + (cmod (mat_el mat True False * ?x + mat_el mat True True * ?y))\<^sup>2
            = (cmod ?x)\<^sup>2 + (cmod ?y)\<^sup>2"
      using u unfolding unitary2_def by (intro unitary_pair) simp_all
    show ?thesis
    proof (cases "bit j k")
      case True
      then have "j = ?j1" "flip_index k j = ?j0"
        using assign_bit_same[of k j] by (simp_all add: flip_index_def)
      then have "?g j + ?g (flip_index k j) = (cmod ?x)\<^sup>2 + (cmod ?y)\<^sup>2" by simp
      moreover have "?f j + ?f (flip_index k j) = (cmod ?x)\<^sup>2 + (cmod ?y)\<^sup>2"
        unfolding nj nf using True up by simp
      ultimately show ?thesis by simp
    next
      case False
      then have "j = ?j0" "flip_index k j = ?j1"
        using assign_bit_same[of k j] by (simp_all add: flip_index_def)
      then have "?g j + ?g (flip_index k j) = (cmod ?x)\<^sup>2 + (cmod ?y)\<^sup>2" by simp
      moreover have "?f j + ?f (flip_index k j) = (cmod ?x)\<^sup>2 + (cmod ?y)\<^sup>2"
        unfolding nj nf using False up by simp
      ultimately show ?thesis by simp
    qed
  qed
  have "(\<Sum>j<2 ^ n. ?f j) = (\<Sum>j<2 ^ n. ?g j)"
    using k pair by (rule sum_by_pairs)
  then show ?thesis by (simp add: norm_sq_sum ns sv)
qed

section \<open>applySingleQubitGate within range\<close>

lemma well_formed_size: "well_formed s \<Longrightarrow> \<not> 2 ^ numQubits s > max_array_length"
proof -
  assume "well_formed s"
  then have "(2::nat) ^ numQubits s \<le> 2 ^ 31"
    by (intro power_increasing) (simp_all add: well_formed_def)
  then show ?thesis by (simp add: max_array_length_def)
qed

lemma applySingleQubitGate_in_range:
  assumes m: "selected_matrix g ps = Some mat" and tt: "two_by_two mat"
    and wf: "well_formed s" and q: "in_range s q"
  shows "\<exists>ns. applySingleQubitGate g q ps s = Returns (s\<lparr>stateVector := ns\<rparr>)
     \<and> length ns = 2 ^ numQubits s
     \<and> (\<forall>j < 2 ^ numQubits s. cplx (ns ! j)
           = mat_el mat (bit j (pos (numQubits s) q)) False
               * cplx (stateVector s ! assign_bit (pos (numQubits s) q) False j)
           + mat_el mat (bit j (pos (numQubits s) q)) True
               * cplx (stateVector s ! assign_bit (pos (numQubits s) q) True j))"
proof -
  let ?n = "numQubits s"
  have n: "?n \<le> 31" and sv: "length (stateVector s) = 2 ^ ?n"
    using wf by (simp_all add: well_formed_def)
  have qq: "0 \<le> q" "q < int ?n" using q by (simp_all add: in_range_def)
  obtain ns where
    l: "for_each [0..<2 ^ ?n] (\<lambda>i. for_each [0..<2] (sq_body mat (stateVector s) (int ?n) q i))
                 (replicate (2 ^ ?n) (Complex_create 0 0)) = Inr ns"
    and r: "length ns = 2 ^ ?n"
      "\<forall>j < 2 ^ ?n. cplx (ns ! j)
           = mat_el mat (bit j (pos ?n q)) False * cplx (stateVector s ! assign_bit (pos ?n q) False j)
           + mat_el mat (bit j (pos ?n q)) True * cplx (stateVector s ! assign_bit (pos ?n q) True j)"
    using sq_loop_in_range[OF n qq sv tt] by blast
  have "applySingleQubitGate g q ps s = Returns (s\<lparr>stateVector := ns\<rparr>)"
    using m l well_formed_size[OF wf]
    by (auto simp: applySingleQubitGate_def selected_matrix_def Let_def
             split: option.splits if_splits)
  then show ?thesis using r by blast
qed

lemma selected_matrix_single:
  assumes "g \<in> single_qubit_kinds"
  shows "\<exists>mat. selected_matrix g ps = Some mat \<and> two_by_two mat \<and> unitary2 mat"
proof -
  have c: "cos (theta_or_zero ps / 2) * cos (theta_or_zero ps / 2)
         + sin (theta_or_zero ps / 2) * sin (theta_or_zero ps / 2) = 1"
    by (rule sin_cos_squared_add3)
  have c': "sin (theta_or_zero ps / 2) * sin (theta_or_zero ps / 2)
         + cos (theta_or_zero ps / 2) * cos (theta_or_zero ps / 2) = 1"
    using c by (simp add: add.commute)
  have p: "cos (pi / 4) * cos (pi / 4) + sin (pi / 4) * sin (pi / 4) = 1"
    by (rule sin_cos_squared_add3)
  consider "g = ''H''" | "g = ''X''" | "g = ''Y''" | "g = ''Z''" | "g = ''S''" | "g = ''T''"
    | "g = ''RX''" | "g = ''RY''" | "g = ''RZ''"
    using assms by (auto simp: single_qubit_kinds_def)
  then show ?thesis
  proof cases
    case 1 then show ?thesis
      by (simp add: selected_matrix_def GATES_def two_by_two_def unitary2_def mat_el_def
          cplx_def complex_eq_iff)
  next
    case 2 then show ?thesis
      by (simp add: selected_matrix_def GATES_def two_by_two_def unitary2_def mat_el_def
          cplx_def complex_eq_iff)
  next
    case 3 then show ?thesis
      by (simp add: selected_matrix_def GATES_def two_by_two_def unitary2_def mat_el_def
          cplx_def complex_eq_iff)
  next
    case 4 then show ?thesis
      by (simp add: selected_matrix_def GATES_def two_by_two_def unitary2_def mat_el_def
          cplx_def complex_eq_iff)
  next
    case 5 then show ?thesis
      by (simp add: selected_matrix_def GATES_def two_by_two_def unitary2_def mat_el_def
          cplx_def complex_eq_iff)
  next
    case 6 then show ?thesis using p
      by (simp add: selected_matrix_def GATES_def two_by_two_def unitary2_def mat_el_def
          cplx_def complex_eq_iff)
  next
    case 7 then show ?thesis using c c'
      by (simp add: selected_matrix_def GATES_def two_by_two_def unitary2_def mat_el_def
          cplx_def complex_eq_iff)
  next
    case 8 then show ?thesis using c c'
      by (simp add: selected_matrix_def GATES_def two_by_two_def unitary2_def mat_el_def
          cplx_def complex_eq_iff)
  next
    case 9 then show ?thesis using c c'
      by (simp add: selected_matrix_def GATES_def two_by_two_def unitary2_def mat_el_def
          cplx_def complex_eq_iff)
  qed
qed

section \<open>Norm preservation\<close>

lemma norm_sq_update:
  assumes "i < length xs" "cmod (cplx y) = cmod (cplx (xs ! i))"
  shows "norm_sq (xs[i := y]) = norm_sq xs"
proof -
  have "(\<Sum>j<length xs. (cmod (cplx (xs[i := y] ! j)))\<^sup>2) = (\<Sum>j<length xs. (cmod (cplx (xs ! j)))\<^sup>2)"
    by (rule sum.cong) (use assms in \<open>auto simp: nth_list_update\<close>)
  then show ?thesis by (simp add: norm_sq_sum)
qed

lemma norm_sq_exchange:
  assumes i: "i < length xs" and j: "j < length xs"
  shows "norm_sq (xs[i := xs ! j, j := xs ! i]) = norm_sq xs"
proof -
  let ?t = "\<lambda>m. if m = i then j else if m = j then i else m"
  let ?g = "\<lambda>m. (cmod (cplx (xs ! m)))\<^sup>2"
  have "(\<Sum>m<length xs. (cmod (cplx (xs[i := xs ! j, j := xs ! i] ! m)))\<^sup>2)
      = (\<Sum>m<length xs. ?g (?t m))"
    by (rule sum.cong) (use i j in \<open>auto simp: nth_list_update\<close>)
  also have "\<dots> = (\<Sum>m<length xs. ?g m)"
    by (rule sum.reindex_bij_witness[where i = ?t and j = ?t]) (use i j in \<open>auto split: if_splits\<close>)
  finally show ?thesis by (simp add: norm_sq_sum)
qed

lemma fold_option_inv:
  assumes "\<And>i acc. i \<in> set is \<Longrightarrow> P acc \<Longrightarrow> \<exists>acc'. body i (Some acc) = Some acc' \<and> P acc'"
    and "P acc"
  shows "\<exists>r. fold body is (Some acc) = Some r \<and> P r"
  using assms
proof (induction "is" arbitrary: acc)
  case Nil
  then show ?case by simp
next
  case (Cons i "is")
  obtain acc' where a: "body i (Some acc) = Some acc'" "P acc'"
    using Cons.prems(1)[of i acc] Cons.prems(2) by auto
  have "\<exists>r. fold body is (Some acc') = Some r \<and> P r"
    using Cons.prems(1) a(2) by (intro Cons.IH) auto
  then show ?case using a(1) by simp
qed

lemma cnot_body_in_range:
  assumes n: "n \<le> 31" and c: "0 \<le> c" "c < int n" and t: "0 \<le> t" "t < int n"
    and i: "i < 2 ^ n" and ns: "length ns = 2 ^ n"
  shows "\<exists>ns'. cnot_body (int n) c t i (Some ns) = Some ns'
           \<and> length ns' = 2 ^ n \<and> norm_sq ns' = norm_sq ns"
proof -
  let ?kt = "pos n t"
  let ?j = "assign_bit ?kt (\<not> bit i ?kt) i"
  have j: "?j < 2 ^ n" using i t by (intro assign_bit_less pos_less)
  have bc: "js_and (js_sar (int i) (int n - 1 - c)) 1 = (if bit i (pos n c) then 1 else 0)"
    using n c i by (rule js_bit_q)
  have bt: "js_and (js_sar (int i) (int n - 1 - t)) 1 = (if bit i ?kt then 1 else 0)"
    using n t i by (rule js_bit_q)
  have nb: "(1::int) - (if bit i ?kt then 1 else 0) = (if \<not> bit i ?kt then 1 else 0)" by simp
  have s: "js_or (js_and (int i) (js_not (js_shl 1 (int n - 1 - t))))
               (js_shl (if \<not> bit i ?kt then 1 else 0) (int n - 1 - t)) = int ?j"
    using n t i by (rule js_set_q)
  have g1: "js_get ns (int i) = Some (ns ! i)" using i ns by (simp add: js_get_nat)
  have g2: "js_get ns (int ?j) = Some (ns ! ?j)" using j ns by (simp add: js_get_nat)
  have e: "cnot_body (int n) c t i (Some ns)
      = (if bit i (pos n c) then Some (ns[i := ns ! ?j, ?j := ns ! i]) else Some ns)"
    unfolding cnot_body_def option.case prod.case Let_def bc bt nb s g1 g2 by simp
  show ?thesis
    unfolding e using i j ns by (simp add: norm_sq_exchange)
qed

lemma applyCNOT_in_range:
  assumes wf: "well_formed s" and c: "in_range s c" and t: "in_range s t"
  shows "\<exists>ns. applyCNOT c t s = Returns (s\<lparr>stateVector := ns\<rparr>)
     \<and> length ns = 2 ^ numQubits s \<and> norm_sq ns = norm_sq (stateVector s)"
proof -
  let ?n = "numQubits s"
  have n: "?n \<le> 31" and sv: "length (stateVector s) = 2 ^ ?n"
    using wf by (simp_all add: well_formed_def)
  have qc: "0 \<le> c" "c < int ?n" and qt: "0 \<le> t" "t < int ?n"
    using c t by (simp_all add: in_range_def)
  let ?P = "\<lambda>acc. length acc = 2 ^ ?n \<and> norm_sq acc = norm_sq (stateVector s)"
  have step: "\<exists>acc'. cnot_body (int ?n) c t i (Some acc) = Some acc' \<and> ?P acc'"
    if "i \<in> set [0..<2 ^ ?n]" and "?P acc" for i acc
  proof -
    have i: "i < 2 ^ ?n" and l: "length acc = 2 ^ ?n"
      and nq: "norm_sq acc = norm_sq (stateVector s)" using that by simp_all
    obtain ns' where a: "cnot_body (int ?n) c t i (Some acc) = Some ns'"
      "length ns' = 2 ^ ?n" "norm_sq ns' = norm_sq acc"
      using cnot_body_in_range[OF n qc qt i l] by blast
    have "?P ns'" using a(2,3) nq by simp
    with a(1) show ?thesis by blast
  qed
  have "?P (stateVector s)" using sv by simp
  from fold_option_inv[of "[0..<2 ^ ?n]" ?P "cnot_body (int ?n) c t" "stateVector s", OF step this]
  obtain r where f: "fold (cnot_body (int ?n) c t) [0..<2 ^ ?n] (Some (stateVector s)) = Some r"
    and r: "length r = 2 ^ ?n" "norm_sq r = norm_sq (stateVector s)"
    by blast
  have "applyCNOT c t s = Returns (s\<lparr>stateVector := r\<rparr>)"
    by (simp add: applyCNOT_def Let_def f)
  then show ?thesis using r by blast
qed

lemma cplx_negate: "cplx (Complex_multiply (Obj a) (Obj (Complex_create (- 1) 0))) = - cplx a"
  by (simp add: complex_eq_iff)

lemma cz_loop_in_range:
  assumes "\<forall>i \<in> set is. i < length sv"
  shows "\<exists>sv'. cz_loop n c t is sv = (None, sv')
           \<and> length sv' = length sv \<and> norm_sq sv' = norm_sq sv"
  using assms
proof (induction "is" arbitrary: sv)
  case Nil
  then show ?case by simp
next
  case (Cons i "is")
  let ?sv1 = "sv[i := Complex_multiply (Obj (sv ! i)) (Obj (Complex_create (- 1) 0))]"
  have i: "i < length sv" using Cons.prems by simp
  have g: "js_get sv (int i) = Some (sv ! i)" using i by (simp add: js_get_nat)
  have "cmod (cplx (Complex_multiply (Obj (sv ! i)) (Obj (Complex_create (- 1) 0))))
      = cmod (cplx (sv ! i))"
    by (simp only: cplx_negate norm_minus_cancel)
  then have n1: "norm_sq ?sv1 = norm_sq sv"
    using i by (intro norm_sq_update)
  have 1: "\<exists>sv'. cz_loop n c t is ?sv1 = (None, sv')
           \<and> length sv' = length ?sv1 \<and> norm_sq sv' = norm_sq ?sv1"
    using Cons.prems by (intro Cons.IH) simp
  have 2: "\<exists>sv'. cz_loop n c t is sv = (None, sv')
           \<and> length sv' = length sv \<and> norm_sq sv' = norm_sq sv"
    using Cons.prems by (intro Cons.IH) simp
  show ?case using 1 2 n1 g by (auto simp: Let_def)
qed

lemma applyCZ_in_range:
  assumes wf: "well_formed s"
  shows "\<exists>ns. applyCZ c t s = Returns (s\<lparr>stateVector := ns\<rparr>)
     \<and> length ns = 2 ^ numQubits s \<and> norm_sq ns = norm_sq (stateVector s)"
proof -
  have sv: "length (stateVector s) = 2 ^ numQubits s" using wf by (simp add: well_formed_def)
  obtain sv' where "cz_loop (int (numQubits s)) c t [0..<2 ^ numQubits s] (stateVector s) = (None, sv')"
    "length sv' = length (stateVector s)" "norm_sq sv' = norm_sq (stateVector s)"
    using cz_loop_in_range[of "[0..<2 ^ numQubits s]" "stateVector s" "int (numQubits s)" c t] sv
    by auto
  then have "applyCZ c t s = Returns (s\<lparr>stateVector := sv'\<rparr>)"
    "length sv' = 2 ^ numQubits s" "norm_sq sv' = norm_sq (stateVector s)"
    using sv by (simp_all add: applyCZ_def Let_def)
  then show ?thesis by blast
qed

lemma applySWAP_norm:
  assumes wf: "well_formed s" and a: "in_range s a" and b: "in_range s b"
  shows "\<exists>ns. applySWAP a b s = Returns (s\<lparr>stateVector := ns\<rparr>)
     \<and> length ns = 2 ^ numQubits s \<and> norm_sq ns = norm_sq (stateVector s)"
proof -
  let ?n = "numQubits s"
  let ?t = "swap_index (pos ?n a) (pos ?n b)"
  let ?g = "\<lambda>j. (cmod (cplx (stateVector s ! j)))\<^sup>2"
  obtain ns where 1: "applySWAP a b s = Returns (s\<lparr>stateVector := ns\<rparr>)"
    and l: "length ns = 2 ^ ?n" and nth: "\<forall>j < 2 ^ ?n. ns ! j = stateVector s ! ?t j"
    using applySWAP_in_range[OF assms] by blast
  have sv: "length (stateVector s) = 2 ^ ?n" using wf by (simp add: well_formed_def)
  have ka: "pos ?n a < ?n" and kb: "pos ?n b < ?n"
    using a b by (simp_all add: in_range_def pos_less)
  have "(\<Sum>j<2 ^ ?n. (cmod (cplx (ns ! j)))\<^sup>2) = (\<Sum>j<2 ^ ?n. ?g (?t j))"
    by (rule sum.cong) (use nth in simp_all)
  also have "\<dots> = (\<Sum>j<2 ^ ?n. ?g j)"
    by (rule sum.reindex_bij_witness[where i = ?t and j = ?t])
       (use ka kb in \<open>simp_all add: swap_index_involution swap_index_less\<close>)
  finally have "norm_sq ns = norm_sq (stateVector s)" by (simp add: norm_sq_sum l sv)
  with 1 l show ?thesis by blast
qed

lemma applySingleQubitGate_norm:
  assumes wf: "well_formed s" and q: "in_range s q" and g: "g \<in> single_qubit_kinds"
  shows "\<exists>ns. applySingleQubitGate g q ps s = Returns (s\<lparr>stateVector := ns\<rparr>)
     \<and> length ns = 2 ^ numQubits s \<and> norm_sq ns = norm_sq (stateVector s)"
proof -
  let ?n = "numQubits s"
  obtain mat where m: "selected_matrix g ps = Some mat" "two_by_two mat" "unitary2 mat"
    using selected_matrix_single[OF g] by blast
  obtain ns where 1: "applySingleQubitGate g q ps s = Returns (s\<lparr>stateVector := ns\<rparr>)"
    and l: "length ns = 2 ^ ?n"
    and nth: "\<forall>j < 2 ^ ?n. cplx (ns ! j)
           = mat_el mat (bit j (pos ?n q)) False * cplx (stateVector s ! assign_bit (pos ?n q) False j)
           + mat_el mat (bit j (pos ?n q)) True * cplx (stateVector s ! assign_bit (pos ?n q) True j)"
    using applySingleQubitGate_in_range[OF m(1,2) wf q] by blast
  have sv: "length (stateVector s) = 2 ^ ?n" using wf by (simp add: well_formed_def)
  have k: "pos ?n q < ?n" using q by (simp add: in_range_def pos_less)
  have "norm_sq ns = norm_sq (stateVector s)"
    using k l sv m(3) nth by (intro unitary_preserves_norm[where n = ?n and k = "pos ?n q" and mat = mat]) simp_all
  with 1 l show ?thesis by blast
qed

lemma apply_call_preserves:
  assumes wf: "well_formed s" and v: "valid_call s c"
  shows "\<exists>ns. apply_call c s = Returns (s\<lparr>stateVector := ns\<rparr>)
     \<and> length ns = 2 ^ numQubits s \<and> norm_sq ns = norm_sq (stateVector s)"
  using v
  by (cases c)
     (simp_all add: applySingleQubitGate_norm[OF wf] applyCNOT_in_range[OF wf]
        applyCZ_in_range[OF wf] applySWAP_norm[OF wf])

lemma reset_well_formed:
  assumes "reset s0 = Returns s"
  shows "well_formed s \<and> norm_sq (stateVector s) = 1"
proof -
  let ?N = "(2::nat) ^ numQubits s0"
  have le: "?N \<le> max_array_length" and s: "s = s0\<lparr>stateVector := (replicate ?N (Complex_create 0 0))[0 := Complex_create 1 0]\<rparr>"
    using assms by (auto simp: reset_def Let_def split: if_splits)
  have n: "numQubits s0 \<le> 31"
  proof (rule ccontr)
    assume "\<not> numQubits s0 \<le> 31"
    then have "32 \<le> numQubits s0" by simp
    then have "(2::nat) ^ 32 \<le> ?N" by (intro power_increasing) simp_all
    with le show False by (simp add: max_array_length_def)
  qed
  have "(\<Sum>j<?N. (cmod (cplx ((replicate ?N (Complex_create 0 0))[0 := Complex_create 1 0] ! j)))\<^sup>2)
      = (\<Sum>j<?N. if j = 0 then 1 else 0)"
    by (rule sum.cong) (auto simp: nth_list_update one_complex.code[symmetric] zero_complex.code[symmetric])
  also have "\<dots> = (1::real)" by simp
  finally have "norm_sq (stateVector s) = 1" by (simp add: norm_sq_sum s)
  then show ?thesis using n by (simp add: well_formed_def s)
qed

text \<open>\<open>reset\<close> returns for up to 31 qubits, and for no more.\<close>
lemma reset_returns_iff: "(\<exists>s. reset s0 = Returns s) \<longleftrightarrow> numQubits s0 \<le> 31"
proof
  assume "\<exists>s. reset s0 = Returns s"
  then obtain s where r: "reset s0 = Returns s" by blast
  have "numQubits s = numQubits s0"
    using r by (auto simp: reset_def Let_def split: if_splits)
  then show "numQubits s0 \<le> 31" using reset_well_formed[OF r] by (simp add: well_formed_def)
next
  assume "numQubits s0 \<le> 31"
  then have "(2::nat) ^ numQubits s0 \<le> 2 ^ 31" by (intro power_increasing) simp_all
  then have "\<not> 2 ^ numQubits s0 > max_array_length" by (simp add: max_array_length_def)
  then show "\<exists>s. reset s0 = Returns s" by (simp add: reset_def Let_def)
qed

lemma apply_calls_preserve:
  assumes "well_formed s" and "\<forall>c \<in> set cs. valid_call s c"
  shows "\<exists>s'. apply_calls cs s = Returns s' \<and> well_formed s' \<and> numQubits s' = numQubits s
            \<and> norm_sq (stateVector s') = norm_sq (stateVector s)"
  using assms
proof (induction cs arbitrary: s)
  case Nil
  then show ?case by simp
next
  case (Cons c cs)
  obtain ns where 1: "apply_call c s = Returns (s\<lparr>stateVector := ns\<rparr>)"
    and l: "length ns = 2 ^ numQubits s" and nn: "norm_sq ns = norm_sq (stateVector s)"
    using apply_call_preserves[of s c] Cons.prems by auto
  let ?s1 = "s\<lparr>stateVector := ns\<rparr>"
  have wf1: "well_formed ?s1" using Cons.prems(1) l by (simp add: well_formed_def)
  have v1: "\<forall>c \<in> set cs. valid_call ?s1 c"
  proof
    fix d assume "d \<in> set cs"
    then have "valid_call s d" using Cons.prems(2) by simp
    then show "valid_call ?s1 d" by (cases d) (simp_all add: in_range_def)
  qed
  obtain s' where "apply_calls cs ?s1 = Returns s'" "well_formed s'" "numQubits s' = numQubits ?s1"
    "norm_sq (stateVector s') = norm_sq (stateVector ?s1)"
    using Cons.IH[OF wf1 v1] by blast
  then show ?case using 1 nn by simp
qed

text \<open>
  Claim C1. From the state that \<open>reset\<close> leaves, for every number of qubits for which it
  returns, and for every sequence of calls of \<open>applySingleQubitGate\<close> (with H, X, Y, Z, S, T,
  RX, RY or RZ and any parameters), \<open>applyCNOT\<close>, \<open>applyCZ\<close> and \<open>applySWAP\<close> with qubit indices
  in range: after each call of the sequence (after the first \<open>k\<close> of them, for every \<open>k\<close>) the
  run has returned and the probabilities of \<open>getProbabilities\<close> sum to exactly 1, over exact
  reals.
\<close>

theorem norm_preserved:
  assumes "reset s0 = Returns s" and "\<forall>c \<in> set cs. valid_call s c" and "k \<le> length cs"
  shows "\<exists>s'. apply_calls (take k cs) s = Returns s' \<and> sum_list (getProbabilities s') = 1"
proof -
  have wf: "well_formed s" and n1: "norm_sq (stateVector s) = 1"
    using reset_well_formed[OF assms(1)] by simp_all
  have "\<forall>c \<in> set (take k cs). valid_call s c"
    using assms(2) by (meson in_set_takeD)
  from apply_calls_preserve[OF wf this] n1 show ?thesis
    by (auto simp: sum_getProbabilities)
qed

lemma replicate_4: "replicate 4 x = [x, x, x, x]"
  by (simp add: numeral_eq_Suc)

theorem norm_preserved_witness:
  "reset \<lparr>numQubits = 2, stateVector = []\<rparr>
     = Returns \<lparr>numQubits = 2, stateVector =
         [\<lparr>re = 1, im = 0\<rparr>, \<lparr>re = 0, im = 0\<rparr>, \<lparr>re = 0, im = 0\<rparr>, \<lparr>re = 0, im = 0\<rparr>]\<rparr>
   \<and> valid_call \<lparr>numQubits = 2, stateVector =
         [\<lparr>re = 1, im = 0\<rparr>, \<lparr>re = 0, im = 0\<rparr>, \<lparr>re = 0, im = 0\<rparr>, \<lparr>re = 0, im = 0\<rparr>]\<rparr>
       (SingleQubitGate ''H'' 0 None)
   \<and> valid_call \<lparr>numQubits = 2, stateVector =
         [\<lparr>re = 1, im = 0\<rparr>, \<lparr>re = 0, im = 0\<rparr>, \<lparr>re = 0, im = 0\<rparr>, \<lparr>re = 0, im = 0\<rparr>]\<rparr>
       (CNOT 0 1)
   \<and> valid_call \<lparr>numQubits = 2, stateVector =
         [\<lparr>re = 1, im = 0\<rparr>, \<lparr>re = 0, im = 0\<rparr>, \<lparr>re = 0, im = 0\<rparr>, \<lparr>re = 0, im = 0\<rparr>]\<rparr>
       (SingleQubitGate ''RX'' 1 (Some \<lparr>theta = Some 1\<rparr>))
   \<and> (\<exists>s'. apply_calls
         [SingleQubitGate ''H'' 0 None, CNOT 0 1, SingleQubitGate ''RX'' 1 (Some \<lparr>theta = Some 1\<rparr>)]
         \<lparr>numQubits = 2, stateVector =
           [\<lparr>re = 1, im = 0\<rparr>, \<lparr>re = 0, im = 0\<rparr>, \<lparr>re = 0, im = 0\<rparr>, \<lparr>re = 0, im = 0\<rparr>]\<rparr>
         = Returns s' \<and> sum_list (getProbabilities s') = 1)"
proof -
  let ?s = "\<lparr>numQubits = 2, stateVector =
         [\<lparr>re = 1, im = 0\<rparr>, \<lparr>re = 0, im = 0\<rparr>, \<lparr>re = 0, im = 0\<rparr>, \<lparr>re = 0, im = 0\<rparr>]\<rparr>"
  let ?cs = "[SingleQubitGate ''H'' 0 None, CNOT 0 1,
              SingleQubitGate ''RX'' 1 (Some \<lparr>theta = Some 1\<rparr>)]"
  have r: "reset \<lparr>numQubits = 2, stateVector = []\<rparr> = Returns ?s"
    by (simp add: reset_def max_array_length_def Complex_create_def replicate_4)
  have v: "\<forall>c \<in> set ?cs. valid_call ?s c"
    by (simp add: single_qubit_kinds_def in_range_def)
  have k: "3 \<le> length ?cs" by simp
  show ?thesis
    using r v norm_preserved [OF r v k] by simp
qed

section \<open>RZ and the probability distribution\<close>

lemma getProbabilities_cmod:
  "getProbabilities s = map (\<lambda>c. (cmod (cplx c))\<^sup>2) (stateVector s)"
  unfolding getProbabilities_def probability_cmod ..

lemma selected_matrix_RZ:
  "selected_matrix ''RZ'' (Some \<lparr>theta = Some t\<rparr>)
   = Some [[Obj \<lparr>re = cos (t / 2), im = - sin (t / 2)\<rparr>, Num 0],
           [Num 0, Obj \<lparr>re = cos (t / 2), im = sin (t / 2)\<rparr>]]"
  by (simp add: selected_matrix_def GATES_def theta_or_zero_def)

lemma applyRZ_probabilities:
  assumes wf: "well_formed s" and q: "in_range s q"
  shows "\<exists>s'. applySingleQubitGate ''RZ'' q (Some \<lparr>theta = Some t\<rparr>) s = Returns s'
           \<and> getProbabilities s' = getProbabilities s"
proof -
  let ?n = "numQubits s" and ?k = "pos (numQubits s) q"
  let ?mat = "[[Obj \<lparr>re = cos (t / 2), im = - sin (t / 2)\<rparr>, Num 0],
               [Num 0, Obj \<lparr>re = cos (t / 2), im = sin (t / 2)\<rparr>]]"
  have tt: "two_by_two ?mat" by (simp add: two_by_two_def)
  obtain ns where 1: "applySingleQubitGate ''RZ'' q (Some \<lparr>theta = Some t\<rparr>) s
        = Returns (s\<lparr>stateVector := ns\<rparr>)"
    and l: "length ns = 2 ^ ?n"
    and nth: "\<forall>j < 2 ^ ?n. cplx (ns ! j)
           = mat_el ?mat (bit j ?k) False * cplx (stateVector s ! assign_bit ?k False j)
           + mat_el ?mat (bit j ?k) True * cplx (stateVector s ! assign_bit ?k True j)"
    using applySingleQubitGate_in_range[OF selected_matrix_RZ tt wf q] by blast
  have sv: "length (stateVector s) = 2 ^ ?n" using wf by (simp add: well_formed_def)
  have off: "mat_el ?mat False True = 0" "mat_el ?mat True False = 0"
    by (simp_all add: mat_el_def cplx_def zero_complex.code)
  have diag: "cmod (mat_el ?mat b b) = 1" for b
    by (cases b) (simp_all add: mat_el_def cplx_def cmod_def)
  have "(cmod (cplx (ns ! j)))\<^sup>2 = (cmod (cplx (stateVector s ! j)))\<^sup>2" if j: "j < 2 ^ ?n" for j
  proof -
    have "cplx (ns ! j) = mat_el ?mat (bit j ?k) (bit j ?k) * cplx (stateVector s ! j)"
    proof (cases "bit j ?k")
      case True
      then have "assign_bit ?k True j = j" using assign_bit_same[of ?k j] by simp
      then show ?thesis using nth j True off by simp
    next
      case False
      then have "assign_bit ?k False j = j" using assign_bit_same[of ?k j] by simp
      then show ?thesis using nth j False off by simp
    qed
    then show ?thesis by (simp add: norm_mult diag)
  qed
  then have "map (\<lambda>c. (cmod (cplx c))\<^sup>2) ns = map (\<lambda>c. (cmod (cplx c))\<^sup>2) (stateVector s)"
    using l sv by (intro nth_equalityI) simp_all
  then have "getProbabilities (s\<lparr>stateVector := ns\<rparr>) = getProbabilities s"
    by (simp add: getProbabilities_cmod)
  with 1 show ?thesis by blast
qed

text \<open>
  Claim C8. On the state that \<open>reset\<close> leaves, for a simulator of at least one qubit, the call
  \<open>applySingleQubitGate ''RZ'' 0\<close> with \<open>theta = t\<close> returns, for every angle \<open>t\<close>, and
  \<open>getProbabilities\<close> gives afterwards exactly the list it gave before, over exact reals.
\<close>
theorem rz_keeps_probabilities:
  assumes "reset s0 = Returns s" and "1 \<le> numQubits s0"
  shows "\<exists>s'. applySingleQubitGate ''RZ'' 0 (Some \<lparr>theta = Some t\<rparr>) s = Returns s'
           \<and> getProbabilities s' = getProbabilities s"
proof -
  have wf: "well_formed s" using reset_well_formed[OF assms(1)] by simp
  have "numQubits s = numQubits s0"
    using assms(1) by (auto simp: reset_def Let_def split: if_splits)
  then have "in_range s 0" using assms(2) by (simp add: in_range_def)
  with wf show ?thesis by (rule applyRZ_probabilities)
qed

lemma replicate_2: "replicate 2 x = [x, x]"
  by (simp add: numeral_eq_Suc)

theorem rz_keeps_probabilities_witness:
  "reset \<lparr>numQubits = 1, stateVector = []\<rparr>
     = Returns \<lparr>numQubits = 1, stateVector = [\<lparr>re = 1, im = 0\<rparr>, \<lparr>re = 0, im = 0\<rparr>]\<rparr>
   \<and> 1 \<le> numQubits \<lparr>numQubits = 1, stateVector = []\<rparr>
   \<and> (\<exists>s'. applySingleQubitGate ''RZ'' 0 (Some \<lparr>theta = Some (pi / 3)\<rparr>)
               \<lparr>numQubits = 1, stateVector = [\<lparr>re = 1, im = 0\<rparr>, \<lparr>re = 0, im = 0\<rparr>]\<rparr> = Returns s'
           \<and> getProbabilities s'
             = getProbabilities \<lparr>numQubits = 1, stateVector = [\<lparr>re = 1, im = 0\<rparr>, \<lparr>re = 0, im = 0\<rparr>]\<rparr>)"
proof -
  have r: "reset \<lparr>numQubits = 1, stateVector = []\<rparr>
     = Returns \<lparr>numQubits = 1, stateVector = [\<lparr>re = 1, im = 0\<rparr>, \<lparr>re = 0, im = 0\<rparr>]\<rparr>"
    by (simp add: reset_def max_array_length_def Complex_create_def replicate_2)
  have n: "1 \<le> numQubits \<lparr>numQubits = 1, stateVector = []\<rparr>" by simp
  show ?thesis
    using r n rz_keeps_probabilities [OF r n, of "pi / 3"] by simp
qed

section \<open>Rotation gates without an angle\<close>

text \<open>
  Claim C5, as the code has it. A rotation gate (RX, RY or RZ) whose \<open>params\<close> lacks \<open>theta\<close>,
  or whose \<open>params\<close> is omitted, is not rejected: \<^verbatim>\<open>params.theta || 0\<close> is then the angle 0,
  the matrix the call takes is the gate's \<^verbatim>\<open>getMatrix(0)\<close>, and the call ends exactly as the
  call with \<open>theta = 0\<close> does, for every simulator state and every qubit index. On a state
  vector of \<open>2 ^ numQubits\<close> amplitudes with a qubit index in range it returns normally.
\<close>
theorem missing_theta_is_zero:
  "theta_or_zero (Some \<lparr>theta = None\<rparr>) = 0
   \<and> theta_or_zero None = 0
   \<and> applySingleQubitGate g q (Some \<lparr>theta = None\<rparr>) s
       = applySingleQubitGate g q (Some \<lparr>theta = Some 0\<rparr>) s
   \<and> applySingleQubitGate g q None s
       = applySingleQubitGate g q (Some \<lparr>theta = Some 0\<rparr>) s
   \<and> (g \<in> {''RX'', ''RY'', ''RZ''} \<longrightarrow>
        (\<exists>gd f. GATES g = Some gd \<and> gtype gd = Rotation \<and> getMatrix gd = Some f
           \<and> selected_matrix g (Some \<lparr>theta = None\<rparr>) = Some (f 0)
           \<and> selected_matrix g None = Some (f 0)))
   \<and> (g \<in> {''RX'', ''RY'', ''RZ''} \<and> well_formed s \<and> in_range s q \<longrightarrow>
        (\<exists>s'. applySingleQubitGate g q (Some \<lparr>theta = None\<rparr>) s = Returns s')
        \<and> (\<exists>s'. applySingleQubitGate g q None s = Returns s'))"
proof -
  have t: "theta_or_zero (Some \<lparr>theta = None\<rparr>) = 0" "theta_or_zero None = 0"
    "theta_or_zero (Some \<lparr>theta = Some 0\<rparr>) = 0"
    by (simp_all add: theta_or_zero_def)
  have 1: "applySingleQubitGate g q (Some \<lparr>theta = None\<rparr>) s
           = applySingleQubitGate g q (Some \<lparr>theta = Some 0\<rparr>) s"
    by (simp only: applySingleQubitGate_def t)
  have 2: "applySingleQubitGate g q None s
           = applySingleQubitGate g q (Some \<lparr>theta = Some 0\<rparr>) s"
    by (simp only: applySingleQubitGate_def t)
  have 3: "\<exists>gd f. GATES g = Some gd \<and> gtype gd = Rotation \<and> getMatrix gd = Some f
           \<and> selected_matrix g (Some \<lparr>theta = None\<rparr>) = Some (f 0)
           \<and> selected_matrix g None = Some (f 0)"
    if g: "g \<in> {''RX'', ''RY'', ''RZ''}"
  proof -
    consider "g = ''RX''" | "g = ''RY''" | "g = ''RZ''" using g by auto
    then show ?thesis
    proof cases
      case 1 then show ?thesis by (simp add: selected_matrix_def GATES_def t)
    next
      case 2 then show ?thesis by (simp add: selected_matrix_def GATES_def t)
    next
      case 3 then show ?thesis by (simp add: selected_matrix_def GATES_def t)
    qed
  qed
  have 4: "(\<exists>s'. applySingleQubitGate g q (Some \<lparr>theta = None\<rparr>) s = Returns s')
        \<and> (\<exists>s'. applySingleQubitGate g q None s = Returns s')"
    if h: "g \<in> {''RX'', ''RY'', ''RZ''} \<and> well_formed s \<and> in_range s q"
  proof -
    have g: "g \<in> single_qubit_kinds" using h by (auto simp: single_qubit_kinds_def)
    have w: "well_formed s" and r: "in_range s q" using h by simp_all
    show ?thesis
      using applySingleQubitGate_norm[OF w r g, of "Some \<lparr>theta = None\<rparr>"]
        applySingleQubitGate_norm[OF w r g, of None] by blast
  qed
  show ?thesis using t(1,2) 1 2 3 4 by blast
qed

theorem missing_theta_is_zero_witness:
  "''RY'' \<in> {''RX'', ''RY'', ''RZ''}
   \<and> well_formed \<lparr>numQubits = 1, stateVector = [\<lparr>re = 1, im = 0\<rparr>, \<lparr>re = 0, im = 0\<rparr>]\<rparr>
   \<and> in_range \<lparr>numQubits = 1, stateVector = [\<lparr>re = 1, im = 0\<rparr>, \<lparr>re = 0, im = 0\<rparr>]\<rparr> 0
   \<and> theta_or_zero (Some \<lparr>theta = None\<rparr>) = 0
   \<and> theta_or_zero None = 0
   \<and> applySingleQubitGate ''RY'' 0 (Some \<lparr>theta = None\<rparr>)
         \<lparr>numQubits = 1, stateVector = [\<lparr>re = 1, im = 0\<rparr>, \<lparr>re = 0, im = 0\<rparr>]\<rparr>
       = applySingleQubitGate ''RY'' 0 (Some \<lparr>theta = Some 0\<rparr>)
         \<lparr>numQubits = 1, stateVector = [\<lparr>re = 1, im = 0\<rparr>, \<lparr>re = 0, im = 0\<rparr>]\<rparr>
   \<and> (\<exists>gd f. GATES ''RY'' = Some gd \<and> gtype gd = Rotation \<and> getMatrix gd = Some f
         \<and> selected_matrix ''RY'' (Some \<lparr>theta = None\<rparr>) = Some (f 0)
         \<and> selected_matrix ''RY'' None = Some (f 0))
   \<and> (\<exists>s'. applySingleQubitGate ''RY'' 0 (Some \<lparr>theta = None\<rparr>)
         \<lparr>numQubits = 1, stateVector = [\<lparr>re = 1, im = 0\<rparr>, \<lparr>re = 0, im = 0\<rparr>]\<rparr> = Returns s')"
proof -
  let ?s = "\<lparr>numQubits = 1, stateVector = [\<lparr>re = 1, im = 0\<rparr>, \<lparr>re = 0, im = 0\<rparr>]\<rparr>"
  have g: "''RY'' \<in> {''RX'', ''RY'', ''RZ''}" by simp
  have w: "well_formed ?s" by (simp add: well_formed_def)
  have q: "in_range ?s 0" by (simp add: in_range_def)
  show ?thesis
    using g w q missing_theta_is_zero [of "''RY''" 0 ?s] by blast
qed

text \<open>
  The claim as the specification states it fails: RX on qubit 0 of a one-qubit simulator in
  its reset state, with a \<open>params\<close> object that lacks \<open>theta\<close>, does not fail; it returns,
  the rotation by the angle 0 having left the state vector as it was.
\<close>
theorem missing_theta_not_fatal:
  "applySingleQubitGate ''RX'' 0 (Some \<lparr>theta = None\<rparr>)
       \<lparr>numQubits = 1, stateVector = [\<lparr>re = 1, im = 0\<rparr>, \<lparr>re = 0, im = 0\<rparr>]\<rparr>
     = Returns \<lparr>numQubits = 1, stateVector = [\<lparr>re = 1, im = 0\<rparr>, \<lparr>re = 0, im = 0\<rparr>]\<rparr>"
  by (simp add: applySingleQubitGate_def GATES_def theta_or_zero_def max_array_length_def
      upt_2 replicate_2 sq_body_def Let_def
      toInt32_def js_shl_def js_sar_def js_and_def js_or_def js_not_def js_get_def
      Complex_create_def Complex_add_def Complex_multiply_def)

section \<open>Hadamard followed by CNOT\<close>

lemmas js_defs = toInt32_def js_shl_def js_sar_def js_and_def js_or_def js_not_def js_get_def
lemmas Complex_defs = Complex_create_def Complex_add_def Complex_multiply_def Complex_magnitude_def

lemma upt_4: "[0..<4] = [0, 1, 2, 3]"
  by (simp add: upt_rec)

text \<open>
  Claim C2 fails on the code. On the two-qubit reset state, H on qubit 0 followed by
  \<open>applyCNOT 0 1\<close> leaves the amplitude \<open>1 / sqrt 2\<close> at the indices 0 and 2 and the amplitude
  0 at the indices 1 and 3: the state is the one H alone produced, not the Bell state. The
  loop of \<open>applyCNOT\<close> visits both indices of every pair whose control bit is 1 and exchanges
  the pair at each visit, so every exchange is undone.
\<close>
theorem hadamard_then_cnot:
  "apply_calls [SingleQubitGate ''H'' 0 None, CNOT 0 1]
       \<lparr>numQubits = 2, stateVector =
         [\<lparr>re = 1, im = 0\<rparr>, \<lparr>re = 0, im = 0\<rparr>, \<lparr>re = 0, im = 0\<rparr>, \<lparr>re = 0, im = 0\<rparr>]\<rparr>
     = Returns \<lparr>numQubits = 2, stateVector =
         [\<lparr>re = 1 / sqrt 2, im = 0\<rparr>, \<lparr>re = 0, im = 0\<rparr>, \<lparr>re = 1 / sqrt 2, im = 0\<rparr>, \<lparr>re = 0, im = 0\<rparr>]\<rparr>"
proof -
  have h: "applySingleQubitGate ''H'' 0 None
       \<lparr>numQubits = 2, stateVector =
         [\<lparr>re = 1, im = 0\<rparr>, \<lparr>re = 0, im = 0\<rparr>, \<lparr>re = 0, im = 0\<rparr>, \<lparr>re = 0, im = 0\<rparr>]\<rparr>
     = Returns \<lparr>numQubits = 2, stateVector =
         [\<lparr>re = 1 / sqrt 2, im = 0\<rparr>, \<lparr>re = 0, im = 0\<rparr>, \<lparr>re = 1 / sqrt 2, im = 0\<rparr>, \<lparr>re = 0, im = 0\<rparr>]\<rparr>"
    by (simp add: applySingleQubitGate_def GATES_def max_array_length_def upt_4 upt_2
        replicate_4 sq_body_def js_defs Complex_defs Let_def)
  have c: "applyCNOT 0 1
       \<lparr>numQubits = 2, stateVector =
         [\<lparr>re = 1 / sqrt 2, im = 0\<rparr>, \<lparr>re = 0, im = 0\<rparr>, \<lparr>re = 1 / sqrt 2, im = 0\<rparr>, \<lparr>re = 0, im = 0\<rparr>]\<rparr>
     = Returns \<lparr>numQubits = 2, stateVector =
         [\<lparr>re = 1 / sqrt 2, im = 0\<rparr>, \<lparr>re = 0, im = 0\<rparr>, \<lparr>re = 1 / sqrt 2, im = 0\<rparr>, \<lparr>re = 0, im = 0\<rparr>]\<rparr>"
    by (simp add: applyCNOT_def upt_4 cnot_body_def js_defs Let_def)
  show ?thesis by (simp add: h c)
qed

lemma cnot_body_eq:
  assumes n: "n \<le> 31" and c: "0 \<le> c" "c < int n" and t: "0 \<le> t" "t < int n"
    and i: "i < 2 ^ n" and ns: "length ns = 2 ^ n"
  shows "cnot_body (int n) c t i (Some ns)
      = (if bit i (pos n c)
         then Some (ns[i := ns ! flip_index (pos n t) i, flip_index (pos n t) i := ns ! i])
         else Some ns)"
proof -
  let ?kt = "pos n t"
  let ?j = "assign_bit ?kt (\<not> bit i ?kt) i"
  have j: "?j < 2 ^ n" using i t by (intro assign_bit_less pos_less)
  have bc: "js_and (js_sar (int i) (int n - 1 - c)) 1 = (if bit i (pos n c) then 1 else 0)"
    using n c i by (rule js_bit_q)
  have bt: "js_and (js_sar (int i) (int n - 1 - t)) 1 = (if bit i ?kt then 1 else 0)"
    using n t i by (rule js_bit_q)
  have nb: "(1::int) - (if bit i ?kt then 1 else 0) = (if \<not> bit i ?kt then 1 else 0)" by simp
  have s: "js_or (js_and (int i) (js_not (js_shl 1 (int n - 1 - t))))
               (js_shl (if \<not> bit i ?kt then 1 else 0) (int n - 1 - t)) = int ?j"
    using n t i by (rule js_set_q)
  have g1: "js_get ns (int i) = Some (ns ! i)" using i ns by (simp add: js_get_nat)
  have g2: "js_get ns (int ?j) = Some (ns ! ?j)" using j ns by (simp add: js_get_nat)
  show ?thesis
    unfolding cnot_body_def option.case prod.case Let_def bc bt nb s g1 g2 flip_index_def
    by simp
qed

lemma pos_inj:
  assumes "0 \<le> c" "c < int n" "0 \<le> t" "t < int n" "c \<noteq> t"
  shows "pos n c \<noteq> pos n t"
  using assms by (simp add: pos_def)

lemma cnot_loop_nth:
  assumes k: "kc \<noteq> kt" "kt < n" and sv: "length sv = 2 ^ n" and m: "m \<le> 2 ^ n"
    and j: "j < 2 ^ n"
  shows "length (fold (\<lambda>i ns. if bit i kc
             then ns[i := ns ! flip_index kt i, flip_index kt i := ns ! i] else ns) [0..<m] sv)
           = 2 ^ n
    \<and> fold (\<lambda>i ns. if bit i kc
             then ns[i := ns ! flip_index kt i, flip_index kt i := ns ! i] else ns) [0..<m] sv ! j
      = sv ! (if bit j kc \<and> (j < m) \<noteq> (flip_index kt j < m) then flip_index kt j else j)"
  using m j
proof (induction m arbitrary: j)
  case 0
  then show ?case using sv by simp
next
  case (Suc m)
  let ?f = "flip_index kt"
  let ?step = "\<lambda>i ns. if bit i kc then ns[i := ns ! ?f i, ?f i := ns ! i] else ns"
  let ?G = "fold ?step [0..<m] sv"
  have mN: "m < 2 ^ n" using Suc.prems by simp
  have len: "length ?G = 2 ^ n" using Suc.IH[of j] Suc.prems by simp
  have IH: "?G ! x = sv ! (if bit x kc \<and> (x < m) \<noteq> (?f x < m) then ?f x else x)"
    if "x < 2 ^ n" for x
    using Suc.IH[of x] that Suc.prems by simp
  have fm: "?f m < 2 ^ n" using mN k by (simp add: flip_index_less)
  have fne: "?f x \<noteq> x" for x
    by (metis bit_flip_index)
  have ff: "?f (?f x) = x" for x by (rule flip_index_involution)
  have fc: "bit (?f x) kc = bit x kc" for x using k by (simp add: bit_flip_index)
  have fj: "?f j = m \<longleftrightarrow> j = ?f m" using ff by metis
  have e: "fold ?step [0..<Suc m] sv = ?step m ?G" by simp
  have j: "j < 2 ^ n" using Suc.prems by simp
  have "?step m ?G ! j
      = sv ! (if bit j kc \<and> (j < Suc m) \<noteq> (?f j < Suc m) then ?f j else j)"
  proof (cases "bit m kc")
    case False
    have "(bit j kc \<and> (j < Suc m) \<noteq> (?f j < Suc m)) = (bit j kc \<and> (j < m) \<noteq> (?f j < m))"
    proof (cases "j = m \<or> ?f j = m")
      case True
      then have "\<not> bit j kc" using False fc[of j] by auto
      then show ?thesis by simp
    next
      case False
      then show ?thesis by (auto simp: less_Suc_eq)
    qed
    then show ?thesis using False IH[OF j] by simp
  next
    case True
    consider (a) "j = m" | (b) "j = ?f m" | (c) "j \<noteq> m" "j \<noteq> ?f m" by blast
    then show ?thesis
    proof cases
      case a
      have "?step m ?G ! j = ?G ! ?f m"
        using True a len mN fm fne[of m] by (simp add: nth_list_update)
      also have "\<dots> = sv ! (if ?f m < m then m else ?f m)"
        using IH[OF fm] True by (simp add: fc ff)
      finally show ?thesis using a True fne[of m] by (auto simp: less_Suc_eq)
    next
      case b
      have "?step m ?G ! j = ?G ! m"
        using True b len mN fm by (simp add: nth_list_update)
      also have "\<dots> = sv ! (if ?f m < m then ?f m else m)"
        using IH[OF mN] True by simp
      finally show ?thesis using b True fne[of m] by (auto simp: less_Suc_eq fc ff)
    next
      case c
      then have nf: "?f j \<noteq> m" using fj by simp
      have "?step m ?G ! j = ?G ! j"
        using True c by (simp add: nth_list_update)
      then show ?thesis using IH[OF j] c nf by (auto simp: less_Suc_eq)
    qed
  qed
  moreover have "length (?step m ?G) = 2 ^ n" using len by simp
  ultimately show ?case unfolding e by blast
qed

text \<open>
  More generally \<open>applyCNOT\<close> changes nothing: with distinct control and target in range it
  returns the simulator as it was, for every state vector of \<open>2 ^ numQubits\<close> amplitudes.
\<close>
lemma applyCNOT_is_identity:
  assumes wf: "well_formed s" and c: "in_range s c" and t: "in_range s t" and ne: "c \<noteq> t"
  shows "applyCNOT c t s = Returns s"
proof -
  let ?n = "numQubits s" and ?sv = "stateVector s"
  let ?N = "(2::nat) ^ ?n"
  let ?kc = "pos ?n c" and ?kt = "pos ?n t"
  let ?step = "\<lambda>i ns. if bit i ?kc
       then ns[i := ns ! flip_index ?kt i, flip_index ?kt i := ns ! i] else ns"
  have n: "?n \<le> 31" and sv: "length ?sv = ?N" using wf by (simp_all add: well_formed_def)
  have qc: "0 \<le> c" "c < int ?n" and qt: "0 \<le> t" "t < int ?n"
    using c t by (simp_all add: in_range_def)
  have k: "?kc \<noteq> ?kt" using qc qt ne by (rule pos_inj)
  have kt: "?kt < ?n" using qt by (rule pos_less)
  have body: "cnot_body (int ?n) c t i (Some acc) = Some (?step i acc) \<and> length (?step i acc) = ?N"
    if "i \<in> set [0..<?N]" and "length acc = ?N" for i acc
  proof -
    have i: "i < ?N" using that(1) by simp
    show ?thesis using cnot_body_eq[OF n qc qt i that(2)] that(2) by simp
  qed
  have f: "fold (cnot_body (int ?n) c t) [0..<?N] (Some ?sv) = Some (fold ?step [0..<?N] ?sv)"
    using fold_option_pure[of "[0..<?N]" "\<lambda>acc. length acc = ?N" "cnot_body (int ?n) c t"
        ?step ?sv, OF body sv] by simp
  have "fold ?step [0..<?N] ?sv = ?sv"
  proof (rule nth_equalityI)
    show "length (fold ?step [0..<?N] ?sv) = length ?sv"
      using cnot_loop_nth[OF k kt sv, of ?N 0] sv by simp
  next
    fix j assume "j < length (fold ?step [0..<?N] ?sv)"
    then have j: "j < ?N" using cnot_loop_nth[OF k kt sv, of ?N 0] by simp
    have "flip_index ?kt j < ?N" using j kt by (rule flip_index_less)
    then show "fold ?step [0..<?N] ?sv ! j = ?sv ! j"
      using cnot_loop_nth[OF k kt sv, of ?N j] j by simp
  qed
  then show ?thesis using f by (simp add: applyCNOT_def Let_def)
qed

section \<open>Weighted sampling\<close>

lemma measure_loop_first:
  assumes "k < length ps" and "r \<le> c0 + sum_list (take (Suc k) ps)"
    and "\<forall>j<k. c0 + sum_list (take (Suc j) ps) < r"
  shows "measure_loop r ps i0 c0 = Some (i0 + k)"
  using assms
proof (induction ps arbitrary: k i0 c0)
  case Nil
  then show ?case by simp
next
  case (Cons p ps)
  show ?case
  proof (cases k)
    case 0
    then show ?thesis using Cons.prems by simp
  next
    case (Suc k')
    have lt: "\<not> r \<le> c0 + p" using Cons.prems(3) Suc by force
    have 1: "k' < length ps" using Cons.prems(1) Suc by simp
    have 2: "r \<le> (c0 + p) + sum_list (take (Suc k') ps)"
      using Cons.prems(2) Suc by (simp add: add.assoc)
    have 3: "\<forall>j<k'. (c0 + p) + sum_list (take (Suc j) ps) < r"
    proof (intro allI impI)
      fix j assume "j < k'"
      then have "Suc j < k" using Suc by simp
      then have "c0 + sum_list (take (Suc (Suc j)) (p # ps)) < r" using Cons.prems(3) by blast
      then show "(c0 + p) + sum_list (take (Suc j) ps) < r" by (simp add: add.assoc)
    qed
    have "measure_loop r ps (i0 + 1) (c0 + p) = Some (i0 + 1 + k')"
      using 1 2 3 by (rule Cons.IH)
    then show ?thesis using lt Suc by (simp add: Let_def)
  qed
qed

lemma measure_loop_none:
  assumes "\<forall>j<length ps. c0 + sum_list (take (Suc j) ps) < r"
  shows "measure_loop r ps i0 c0 = None"
  using assms
proof (induction ps arbitrary: i0 c0)
  case Nil
  then show ?case by simp
next
  case (Cons p ps)
  have lt: "\<not> r \<le> c0 + p" using Cons.prems by force
  have "\<forall>j<length ps. (c0 + p) + sum_list (take (Suc j) ps) < r"
  proof (intro allI impI)
    fix j assume "j < length ps"
    then have "Suc j < length (p # ps)" by simp
    then have "c0 + sum_list (take (Suc (Suc j)) (p # ps)) < r" using Cons.prems by blast
    then show "(c0 + p) + sum_list (take (Suc j) ps) < r" by (simp add: add.assoc)
  qed
  then have "measure_loop r ps (i0 + 1) (c0 + p) = None" by (rule Cons.IH)
  then show ?case using lt by (simp add: Let_def)
qed

lemma measure_loop_bound:
  "measure_loop r ps i0 c0 = Some m \<Longrightarrow> m < i0 + length ps"
proof (induction ps arbitrary: i0 c0)
  case Nil
  then show ?case by simp
next
  case (Cons p ps)
  show ?case
  proof (cases "r \<le> c0 + p")
    case True
    then show ?thesis using Cons.prems by (simp add: Let_def)
  next
    case False
    then have "measure_loop r ps (i0 + 1) (c0 + p) = Some m"
      using Cons.prems by (simp add: Let_def)
    then have "m < i0 + 1 + length ps" by (rule Cons.IH)
    then show ?thesis by simp
  qed
qed

lemma length_toString2:
  "0 < n \<Longrightarrow> i < 2 ^ n \<Longrightarrow> length (toString2 i) \<le> n"
proof (induction i arbitrary: n rule: toString2.induct)
  case (1 i)
  show ?case
  proof (cases "i < 2")
    case True
    then show ?thesis using "1.prems" by (subst toString2.simps) simp
  next
    case False
    obtain n' where n: "n = Suc n'" using "1.prems"(1) by (cases n) simp_all
    have n0: "0 < n'"
    proof (rule ccontr)
      assume "\<not> 0 < n'"
      then show False using n "1.prems"(2) False by simp
    qed
    have "i div 2 < 2 ^ n'" using "1.prems"(2) n by (simp add: less_mult_imp_div_less)
    then have "length (toString2 (i div 2)) \<le> n'" using "1.IH"[OF False n0] by simp
    then show ?thesis using False n by (subst toString2.simps) simp
  qed
qed

text \<open>
  Claim C4, as the code has it. With \<open>cumulative s k\<close> the probability mass of the first \<open>k\<close>
  indices: for every state vector and every draw \<open>r\<close>, \<open>measure\<close> returns the binary string,
  padded with zeros to \<open>numQubits\<close> characters, of the first index whose cumulative mass is at
  least \<open>r\<close>; when \<open>r\<close> exceeds every cumulative mass it returns the string of \<open>numQubits\<close>
  zeros, which is the string of index 0 and not the one of the last index. On a state vector
  of \<open>2 ^ numQubits\<close> amplitudes, with one qubit or more, the string has \<open>numQubits\<close> characters.
\<close>
theorem measure_selects:
  "(i < length (getProbabilities s) \<and> r \<le> cumulative s (Suc i)
      \<and> (\<forall>j<i. cumulative s (Suc j) < r)
     \<longrightarrow> measure r s = padStart (numQubits s) CHR ''0'' (toString2 i))
   \<and> ((\<forall>j<length (getProbabilities s). cumulative s (Suc j) < r)
     \<longrightarrow> measure r s = replicate (numQubits s) CHR ''0'')
   \<and> (well_formed s \<and> 1 \<le> numQubits s \<longrightarrow> length (measure r s) = numQubits s)"
proof (intro conjI impI)
  assume a: "i < length (getProbabilities s) \<and> r \<le> cumulative s (Suc i)
      \<and> (\<forall>j<i. cumulative s (Suc j) < r)"
  have "measure_loop r (getProbabilities s) 0 0 = Some (0 + i)"
    using a by (intro measure_loop_first) (simp_all add: cumulative_def)
  then show "measure r s = padStart (numQubits s) CHR ''0'' (toString2 i)"
    by (simp add: measure_def)
next
  assume "\<forall>j<length (getProbabilities s). cumulative s (Suc j) < r"
  then have "measure_loop r (getProbabilities s) 0 0 = None"
    by (intro measure_loop_none) (simp add: cumulative_def)
  then show "measure r s = replicate (numQubits s) CHR ''0''"
    by (simp add: measure_def)
next
  assume w: "well_formed s \<and> 1 \<le> numQubits s"
  show "length (measure r s) = numQubits s"
  proof (cases "measure_loop r (getProbabilities s) 0 0")
    case None
    then show ?thesis by (simp add: measure_def)
  next
    case (Some m)
    then have "m < 0 + length (getProbabilities s)" by (rule measure_loop_bound)
    then have "m < 2 ^ numQubits s" using w by (simp add: getProbabilities_def well_formed_def)
    then have "length (toString2 m) \<le> numQubits s" using w by (intro length_toString2) simp_all
    then show ?thesis using Some by (simp add: measure_def padStart_def)
  qed
qed

theorem measure_selects_witness:
  "1 < length (getProbabilities \<lparr>numQubits = 1, stateVector = [\<lparr>re = 0, im = 0\<rparr>, \<lparr>re = 1, im = 0\<rparr>]\<rparr>)
   \<and> 1 / 2 \<le> cumulative \<lparr>numQubits = 1, stateVector = [\<lparr>re = 0, im = 0\<rparr>, \<lparr>re = 1, im = 0\<rparr>]\<rparr> 2
   \<and> cumulative \<lparr>numQubits = 1, stateVector = [\<lparr>re = 0, im = 0\<rparr>, \<lparr>re = 1, im = 0\<rparr>]\<rparr> 1 < 1 / 2
   \<and> measure (1 / 2) \<lparr>numQubits = 1, stateVector = [\<lparr>re = 0, im = 0\<rparr>, \<lparr>re = 1, im = 0\<rparr>]\<rparr> = ''1''
   \<and> well_formed \<lparr>numQubits = 1, stateVector = [\<lparr>re = 0, im = 0\<rparr>, \<lparr>re = 1, im = 0\<rparr>]\<rparr>
   \<and> length (measure (1 / 2) \<lparr>numQubits = 1, stateVector = [\<lparr>re = 0, im = 0\<rparr>, \<lparr>re = 1, im = 0\<rparr>]\<rparr>) = 1"
proof -
  let ?s = "\<lparr>numQubits = 1, stateVector = [\<lparr>re = 0, im = 0\<rparr>, \<lparr>re = 1, im = 0\<rparr>]\<rparr>"
  have p: "getProbabilities ?s = [0, 1]"
    by (simp add: getProbabilities_def Complex_magnitude_def)
  have 1: "1 < length (getProbabilities ?s)" unfolding p by simp
  have 2: "1 / 2 \<le> cumulative ?s 2" unfolding cumulative_def p by simp
  have 3: "cumulative ?s 1 < 1 / 2" unfolding cumulative_def p by simp
  have w: "well_formed ?s" by (simp add: well_formed_def)
  have h2: "1 / 2 \<le> cumulative ?s (Suc 1)" using 2 by (simp only: Suc_1)
  have h3: "\<forall>j<1. cumulative ?s (Suc j) < 1 / 2" using 3 by simp
  have n: "1 \<le> numQubits ?s" by simp
  have t: "padStart (numQubits ?s) CHR ''0'' (toString2 1) = ''1''"
    by (simp add: padStart_def toString2.simps)
  have m: "measure (1 / 2) ?s = padStart (numQubits ?s) CHR ''0'' (toString2 1)"
    using measure_selects [of 1 ?s "1 / 2"] 1 h2 h3 by blast
  have l: "length (measure (1 / 2) ?s) = numQubits ?s"
    using measure_selects [of 1 ?s "1 / 2"] w n by blast
  have l1: "length (measure (1 / 2) ?s) = 1" using l by simp
  have m1: "measure (1 / 2) ?s = ''1''" using m t by simp
  show ?thesis using 1 2 3 m1 w l1 by blast
qed

text \<open>
  The claim as the specification states it fails on the fallback. The all-zero state vector
  of one qubit, which \<open>applySingleQubitGate ''SWAP'' 0\<close> leaves after X on the reset state, has
  every cumulative mass 0, below the draw \<open>1 / 2\<close>: \<open>measure\<close> returns the string of index 0,
  not the string of the last index \<open>2 ^ 1 - 1\<close>.
\<close>
theorem measure_fallback_is_index_zero:
  "apply_calls [SingleQubitGate ''X'' 0 None, SingleQubitGate ''SWAP'' 0 None]
       \<lparr>numQubits = 1, stateVector = [\<lparr>re = 1, im = 0\<rparr>, \<lparr>re = 0, im = 0\<rparr>]\<rparr>
     = Returns \<lparr>numQubits = 1, stateVector = [\<lparr>re = 0, im = 0\<rparr>, \<lparr>re = 0, im = 0\<rparr>]\<rparr>
   \<and> measure (1 / 2) \<lparr>numQubits = 1, stateVector = [\<lparr>re = 0, im = 0\<rparr>, \<lparr>re = 0, im = 0\<rparr>]\<rparr> = ''0''
   \<and> padStart 1 CHR ''0'' (toString2 (2 ^ 1 - 1)) = ''1''"
proof -
  have x: "applySingleQubitGate ''X'' 0 None
       \<lparr>numQubits = 1, stateVector = [\<lparr>re = 1, im = 0\<rparr>, \<lparr>re = 0, im = 0\<rparr>]\<rparr>
     = Returns \<lparr>numQubits = 1, stateVector = [\<lparr>re = 0, im = 0\<rparr>, \<lparr>re = 1, im = 0\<rparr>]\<rparr>"
    by (simp add: applySingleQubitGate_def GATES_def max_array_length_def upt_2
        replicate_2 sq_body_def js_defs Complex_defs Let_def)
  have s: "applySingleQubitGate ''SWAP'' 0 None
       \<lparr>numQubits = 1, stateVector = [\<lparr>re = 0, im = 0\<rparr>, \<lparr>re = 1, im = 0\<rparr>]\<rparr>
     = Returns \<lparr>numQubits = 1, stateVector = [\<lparr>re = 0, im = 0\<rparr>, \<lparr>re = 0, im = 0\<rparr>]\<rparr>"
    by (simp add: applySingleQubitGate_def GATES_def max_array_length_def upt_2
        replicate_2 sq_body_def js_defs Complex_defs Let_def)
  have m: "measure (1 / 2) \<lparr>numQubits = 1, stateVector = [\<lparr>re = 0, im = 0\<rparr>, \<lparr>re = 0, im = 0\<rparr>]\<rparr> = ''0''"
    by (simp add: measure_def getProbabilities_def Complex_magnitude_def padStart_def
        toString2.simps)
  have t: "padStart 1 CHR ''0'' (toString2 (2 ^ 1 - 1)) = ''1''"
    by (simp add: padStart_def toString2.simps)
  show ?thesis by (simp only: apply_calls.simps apply_call.simps x s m t outcome.case)
qed

section \<open>Qubit indices out of range\<close>

lemma shift_misses_ranges:
  assumes "numQubits s \<le> 31"
    and "(int (numQubits s) \<le> q \<and> q \<le> 31) \<or> (int (numQubits s) - 32 \<le> q \<and> q < 0)"
  shows "shift_misses s q"
proof -
  let ?sh = "int (numQubits s) - 1 - q"
  from assms(2) show ?thesis
  proof
    assume a: "int (numQubits s) \<le> q \<and> q \<le> 31"
    have "?sh mod 32 = (?sh + 32) mod 32" by (rule mod_add_self2 [symmetric])
    also have "\<dots> = ?sh + 32" using a by (intro mod_pos_pos_trivial) linarith+
    finally show ?thesis using a by (simp add: shift_misses_def)
  next
    assume a: "int (numQubits s) - 32 \<le> q \<and> q < 0"
    have "?sh mod 32 = ?sh" using a by (intro mod_pos_pos_trivial) linarith+
    then show ?thesis using a by (simp add: shift_misses_def)
  qed
qed

lemma shift_misses_not_in_range: "shift_misses s q \<Longrightarrow> \<not> in_range s q"
proof
  let ?sh = "int (numQubits s) - 1 - q"
  assume m: "shift_misses s q" and r: "in_range s q"
  have 0: "0 \<le> ?sh" and 1: "?sh < int (numQubits s)" using r by (simp_all add: in_range_def)
  have "?sh mod 32 \<le> ?sh" using 0 by (rule zmod_le_nonneg_dividend)
  then show False using m 1 by (simp add: shift_misses_def)
qed



















end
